theory Spec2Isabelle
  imports Main "HOL-Library.Sublist"
begin

section \<open>String helpers of the JavaScript runtime used by the pattern compiler\<close>

text \<open>
  JavaScript strings are modelled as HOL strings (lists of characters). The two
  runtime operations the pattern compiler relies on are written out:
  \<^item> \<open>String.prototype.replace\<close> with a \<^emph>\<open>string\<close> pattern: the first occurrence of
    the pattern is replaced, and the replacement text is expanded as the language
    prescribes (\<open>$$\<close>, \<open>$&\<close>, \<open>$`\<close>, \<open>$'\<close>; with a string pattern there are no groups,
    so \<open>$1\<close> etc. stay literal);
  \<^item> \<open>str.match(/:([^\/]+)/ig)\<close>: all non-overlapping matches, left to right, of a
    colon followed by a maximal non-empty run of characters other than \<open>/\<close>.
\<close>

definition backslash :: char where
  "backslash = CHR 0x5C"

definition quote :: char where
  "quote = CHR 0x27"

fun get_subst :: "string \<Rightarrow> string \<Rightarrow> string \<Rightarrow> string \<Rightarrow> string" where
  "get_subst m b a [] = []"
| "get_subst m b a [c] = [c]"
| "get_subst m b a (c # d # cs) =
     (if c = CHR ''$'' then
        (if d = CHR ''$'' then CHR ''$'' # get_subst m b a cs
         else if d = CHR ''&'' then m @ get_subst m b a cs
         else if d = CHR ''`'' then b @ get_subst m b a cs
         else if d = quote then a @ get_subst m b a cs
         else c # get_subst m b a (d # cs))
      else c # get_subst m b a (d # cs))"

fun index_of :: "string \<Rightarrow> string \<Rightarrow> nat option" where
  "index_of pat [] = (if pat = [] then Some 0 else None)"
| "index_of pat (c # cs) =
     (if prefix pat (c # cs) then Some 0 else map_option Suc (index_of pat cs))"

definition str_replace :: "string \<Rightarrow> string \<Rightarrow> string \<Rightarrow> string" where
  "str_replace s pat rep =
     (case index_of pat s of
        None \<Rightarrow> s
      | Some i \<Rightarrow>
          take i s
          @ get_subst pat (take i s) (drop (i + length pat) s) rep
          @ drop (i + length pat) s)"

function match_tokens :: "string \<Rightarrow> string list" where
  "match_tokens [] = []"
| "match_tokens (c # cs) =
     (if c = CHR '':'' \<and> cs \<noteq> [] \<and> hd cs \<noteq> CHR ''/''
      then (c # takeWhile (\<lambda>x. x \<noteq> CHR ''/'') cs)
             # match_tokens (dropWhile (\<lambda>x. x \<noteq> CHR ''/'') cs)
      else match_tokens cs)"
  by pat_completeness auto
termination
  by (relation "measure length") (auto simp: length_dropWhile_le less_Suc_eq_le)

section \<open>The pattern compiler: \<open>paramifyString\<close> and \<open>regifyString\<close>\<close>

definition default_capture :: string where
  "default_capture = ''([a-zA-Z0-9-]+)''"

definition wildcard_capture :: string where
  "wildcard_capture = ''([_.()!'' @ [backslash] @ '' %@&a-zA-Z0-9-]+)''"

text \<open>
  \<open>this.params\<close> is an object from token names to substitution functions, enumerated
  by \<open>for ... in\<close> in the order the tokens were first registered: an association list.
\<close>

type_synonym params = "(string \<times> (string \<Rightarrow> string)) list"

text \<open>The loop of \<open>paramifyString\<close>; the third argument is the variable \<open>mod\<close> of the source.\<close>

fun paramify_loop :: "string \<Rightarrow> params \<Rightarrow> string \<Rightarrow> string" where
  "paramify_loop str [] modv = modv"
| "paramify_loop str ((param, f) # ps) modv =
     (let m = f str in if m \<noteq> str then m else paramify_loop str ps m)"

definition paramifyString :: "string \<Rightarrow> params \<Rightarrow> string" where
  "paramifyString str ps =
     (let m = paramify_loop str ps str in if m = str then default_capture else m)"

definition expand_wildcards :: "string \<Rightarrow> string" where
  "expand_wildcards str =
     (if CHR ''*'' \<in> set str
      then concat (map (\<lambda>c. if c = CHR ''*'' then wildcard_capture else [c]) str)
      else str)"

fun replace_captures :: "params \<Rightarrow> string list \<Rightarrow> string \<Rightarrow> string" where
  "replace_captures ps [] str = str"
| "replace_captures ps (c # cs) str =
     replace_captures ps cs (str_replace str c (paramifyString c ps))"

definition regifyString :: "string \<Rightarrow> params \<Rightarrow> string" where
  "regifyString str ps =
     (let str' = expand_wildcards str in replace_captures ps (match_tokens str') str')"

text \<open>
  The substitution function that \<open>param(token, matcher)\<close> registers, for a token and a
  matcher source free of regular-expression and \<open>$\<close> metacharacters: every occurrence
  of the token is replaced by the matcher source.
\<close>

fun replace_all :: "string \<Rightarrow> string \<Rightarrow> string \<Rightarrow> string" where
  "replace_all tok rep [] = []"
| "replace_all tok rep (c # cs) =
     (if tok \<noteq> [] \<and> prefix tok (c # cs)
      then rep @ replace_all tok rep (drop (length tok) (c # cs))
      else c # replace_all tok rep cs)"

text \<open>
  Notions used to state when recompiling changes nothing. A string is \<open>live\<close> when the
  token expression matches at its first character (a colon followed by a character
  other than \<open>/\<close>); \<open>no_live pre t\<close> says that in \<open>pre @ t\<close> no match starts inside
  \<open>pre\<close>. A fragment is plain when it contains none of \<open>:\<close>, \<open>*\<close> and \<open>$\<close>.
\<close>

fun live :: "string \<Rightarrow> bool" where
  "live (c # d # cs) = (c = CHR '':'' \<and> d \<noteq> CHR ''/'')"
| "live cs = False"

fun no_live :: "string \<Rightarrow> string \<Rightarrow> bool" where
  "no_live [] t = True"
| "no_live (c # cs) t = (\<not> live (c # cs @ t) \<and> no_live cs t)"

definition plain_fragment :: "string \<Rightarrow> bool" where
  "plain_fragment r \<longleftrightarrow> CHR '':'' \<notin> set r \<and> CHR ''*'' \<notin> set r \<and> CHR ''$'' \<notin> set r"

section \<open>JavaScript values, handlers and errors\<close>

text \<open>
  The values that occur in routing tables and run-lists.
  \<^item> \<open>Fn f\<close> is a handler, an opaque function named by a number, with no own
    enumerable properties; \<open>FnWith f kvs\<close> is the same function after own enumerable
    properties have been set on it (the source does this when an insertion path runs
    through a segment held by a handler).
  \<^item> \<open>Obj kvs\<close> is a plain object: the list of its own enumerable properties in
    enumeration order (integer-like keys first, in ascending order, then the other keys
    in order of insertion), with distinct keys. Its prototype is \<open>Object.prototype\<close>:
    a read of a name it does not own falls through to the members of
    \<open>Object.prototype\<close>, which are built-in functions (\<open>Native\<close>), and the name
    \<open>__proto__\<close> reads \<open>Object.prototype\<close> itself (\<open>ObjectPrototype\<close>).
  \<^item> Arrays are lists of values. A list is owned by the slot that holds it: that one
    array object may sit in two slots, so that a \<open>push\<close> through one is seen through
    the other, is not modelled.
  Reads of properties of arrays, primitive values and built-ins, reads of the built-in
  members of a function (\<open>length\<close>, \<open>name\<close>, \<open>call\<close>, ...), writes to anything but a
  plain object or a handler, writes of the name \<open>__proto__\<close>, and calls of built-in
  functions are outside the model: they end in the error \<open>Unmodelled\<close>.
\<close>

datatype jsval =
    Undefined
  | Null
  | Bool bool
  | Num int
  | Str string
  | Fn nat
  | FnWith nat "(string \<times> jsval) list"
  | Native string
  | ObjectPrototype
  | Arr "jsval list"
  | Obj "(string \<times> jsval) list"

fun truthy :: "jsval \<Rightarrow> bool" where
  "truthy Undefined = False"
| "truthy Null = False"
| "truthy (Bool b) = b"
| "truthy (Num n) = (n \<noteq> 0)"
| "truthy (Str s) = (s \<noteq> [])"
| "truthy (Fn f) = True"
| "truthy (FnWith f kvs) = True"
| "truthy (Native n) = True"
| "truthy ObjectPrototype = True"
| "truthy (Arr xs) = True"
| "truthy (Obj kvs) = True"

fun typeof :: "jsval \<Rightarrow> string" where
  "typeof Undefined = ''undefined''"
| "typeof Null = ''object''"
| "typeof (Bool b) = ''boolean''"
| "typeof (Num n) = ''number''"
| "typeof (Str s) = ''string''"
| "typeof (Fn f) = ''function''"
| "typeof (FnWith f kvs) = ''function''"
| "typeof (Native n) = ''function''"
| "typeof ObjectPrototype = ''object''"
| "typeof (Arr xs) = ''object''"
| "typeof (Obj kvs) = ''object''"

fun isArray :: "jsval \<Rightarrow> bool" where
  "isArray (Arr xs) = True"
| "isArray v = False"

text \<open>The function-valued members of \<open>Object.prototype\<close>, and what a plain object
  inherits under a name.\<close>

definition object_prototype_members :: "string list" where
  "object_prototype_members =
     [''constructor'', ''toString'', ''toLocaleString'', ''valueOf'', ''hasOwnProperty'',
      ''isPrototypeOf'', ''propertyIsEnumerable'', ''__defineGetter__'', ''__defineSetter__'',
      ''__lookupGetter__'', ''__lookupSetter__'']"

definition inherited :: "string \<Rightarrow> jsval" where
  "inherited k =
     (if k = ''__proto__'' then ObjectPrototype
      else if k \<in> set object_prototype_members then Native k
      else Undefined)"

text \<open>\<open>o[k]\<close> for a plain object with the own properties \<open>kvs\<close>.\<close>

definition get_key :: "(string \<times> jsval) list \<Rightarrow> string \<Rightarrow> jsval" where
  "get_key kvs k =
     (if k = ''__proto__'' then ObjectPrototype
      else (case map_of kvs k of None \<Rightarrow> inherited k | Some v \<Rightarrow> v))"

text \<open>
  \<open>o[k] = v\<close> on the own properties: an existing key keeps its place; a new key that is
  a canonical array index (\<open>0\<close>, \<open>1\<close>, ... below \<open>2^32 - 1\<close>) goes among the index keys,
  which come first in ascending order; any other new key goes last.
\<close>

definition is_digit :: "char \<Rightarrow> bool" where
  "is_digit c \<longleftrightarrow> 48 \<le> (of_char c :: nat) \<and> (of_char c :: nat) \<le> 57"

definition index_value :: "string \<Rightarrow> nat" where
  "index_value k = foldl (\<lambda>n c. 10 * n + (of_char c - 48)) 0 k"

definition is_index :: "string \<Rightarrow> bool" where
  "is_index k \<longleftrightarrow>
     k \<noteq> [] \<and> list_all is_digit k \<and> (k = ''0'' \<or> hd k \<noteq> CHR ''0'')
     \<and> length k \<le> 10 \<and> index_value k < 4294967295"

fun replace_key :: "(string \<times> jsval) list \<Rightarrow> string \<Rightarrow> jsval \<Rightarrow> (string \<times> jsval) list" where
  "replace_key [] k v = []"
| "replace_key ((k', v') # kvs) k v =
     (if k' = k then (k, v) # kvs else (k', v') # replace_key kvs k v)"

fun add_index_key :: "(string \<times> jsval) list \<Rightarrow> string \<Rightarrow> jsval \<Rightarrow> (string \<times> jsval) list" where
  "add_index_key [] k v = [(k, v)]"
| "add_index_key ((k', v') # kvs) k v =
     (if is_index k' \<and> index_value k' < index_value k
      then (k', v') # add_index_key kvs k v
      else (k, v) # (k', v') # kvs)"

definition set_key :: "(string \<times> jsval) list \<Rightarrow> string \<Rightarrow> jsval \<Rightarrow> (string \<times> jsval) list" where
  "set_key kvs k v =
     (if k \<in> fst ` set kvs then replace_key kvs k v
      else if is_index k then add_index_key kvs k v
      else kvs @ [(k, v)])"

datatype error =
    InvalidRouteContext string
  | TypeError
  | SyntaxError
  | Thrown jsval
  | Unmodelled

text \<open>
  The built-in members of a function object, own (\<open>length\<close>, \<open>name\<close>, \<open>prototype\<close>,
  ...) or inherited from \<open>Function.prototype\<close> and \<open>Object.prototype\<close>; their values
  are not modelled.
\<close>

definition function_members :: "string list" where
  "function_members =
     [''length'', ''name'', ''prototype'', ''arguments'', ''caller'', ''apply'', ''bind'',
      ''call'', ''__proto__''] @ object_prototype_members"

text \<open>
  \<open>v[k]\<close> for an arbitrary value: \<open>null\<close> and \<open>undefined\<close> raise a \<open>TypeError\<close>.
\<close>

fun get_prop :: "jsval \<Rightarrow> string \<Rightarrow> error + jsval" where
  "get_prop Undefined k = Inl TypeError"
| "get_prop Null k = Inl TypeError"
| "get_prop (Obj kvs) k = Inr (get_key kvs k)"
| "get_prop (Fn f) k = (if k \<in> set function_members then Inl Unmodelled else Inr Undefined)"
| "get_prop (FnWith f kvs) k =
     (if k \<in> set function_members then Inl Unmodelled
      else (case map_of kvs k of None \<Rightarrow> Inr Undefined | Some v \<Rightarrow> Inr v))"
| "get_prop v k = Inl Unmodelled"

text \<open>\<open>v[k] = x\<close>: the value \<open>v\<close> after the write.\<close>

fun put_prop :: "jsval \<Rightarrow> string \<Rightarrow> jsval \<Rightarrow> error + jsval" where
  "put_prop (Obj kvs) k x =
     (if k = ''__proto__'' then Inl Unmodelled else Inr (Obj (set_key kvs k x)))"
| "put_prop (Fn f) k x =
     (if k \<in> set function_members then Inl Unmodelled else Inr (FnWith f (set_key [] k x)))"
| "put_prop (FnWith f kvs) k x =
     (if k \<in> set function_members then Inl Unmodelled else Inr (FnWith f (set_key kvs k x)))"
| "put_prop Undefined k x = Inl TypeError"
| "put_prop Null k x = Inl TypeError"
| "put_prop v k x = Inl Unmodelled"

text \<open>
  Handlers are opaque to the router. A call of handler \<open>f\<close> with a receiver and arguments
  runs in some world \<open>'w\<close> that it may change; it either throws, or returns a value and
  (in asynchronous mode, where a continuation is appended to its arguments) calls that
  continuation with one argument, or never calls it. Handlers are assumed not to touch
  the router or the run-list being walked. Every invocation is recorded in a trace.
\<close>

datatype this_arg = ThisRouter | ThisValue jsval

datatype outcome =
    Throws jsval
  | Returns jsval "jsval option"

type_synonym call = "nat \<times> this_arg \<times> jsval list"

type_synonym 'w handlers = "nat \<Rightarrow> this_arg \<Rightarrow> jsval list \<Rightarrow> 'w \<Rightarrow> outcome \<times> 'w"

type_synonym 'w world = "call list \<times> 'w"

definition call_handler ::
  "'w handlers \<Rightarrow> nat \<Rightarrow> this_arg \<Rightarrow> jsval list \<Rightarrow> 'w world \<Rightarrow> outcome \<times> 'w world" where
  "call_handler H f t args s =
     (case H f t args (snd s) of (out, w') \<Rightarrow> (out, (fst s @ [(f, t, args)], w')))"

section \<open>Invocation of a run-list: \<open>_every\<close>, \<open>_asyncEverySeries\<close>, \<open>invoke\<close>\<close>

text \<open>
  A run-list is an array with an optional \<open>captures\<close> property. In synchronous mode
  \<open>invoke\<close> walks it with \<open>_every\<close> and the local function \<open>apply\<close>; \<open>_every\<close> stops
  when the iterator returns exactly \<open>false\<close> and itself always returns \<open>undefined\<close>.
  The arguments of every handler are \<open>fns.captures || null\<close>.
\<close>

record runlist =
  fns :: "jsval list"
  captures :: "jsval list option"

definition capture_args :: "jsval list option \<Rightarrow> jsval list" where
  "capture_args c = (case c of None \<Rightarrow> [] | Some cs \<Rightarrow> cs)"

fun invoke_apply ::
      "'w handlers \<Rightarrow> jsval \<Rightarrow> this_arg \<Rightarrow> jsval list \<Rightarrow> jsval \<Rightarrow> 'w world
         \<Rightarrow> (error + jsval) \<times> 'w world"
  and every ::
      "'w handlers \<Rightarrow> jsval \<Rightarrow> this_arg \<Rightarrow> jsval list \<Rightarrow> jsval list \<Rightarrow> 'w world
         \<Rightarrow> (error + unit) \<times> 'w world"
where
  "invoke_apply H res t args (Arr xs) s =
     (case every H res t args xs s of
        (Inl e, s') \<Rightarrow> (Inl e, s')
      | (Inr u, s') \<Rightarrow> (Inr Undefined, s'))"
| "invoke_apply H res t args (Fn f) s =
     (case call_handler H f t args s of
        (Throws e, s') \<Rightarrow> (Inl (Thrown e), s')
      | (Returns v n, s') \<Rightarrow> (Inr v, s'))"
| "invoke_apply H res t args (FnWith f kvs) s =
     (case call_handler H f t args s of
        (Throws e, s') \<Rightarrow> (Inl (Thrown e), s')
      | (Returns v n, s') \<Rightarrow> (Inr v, s'))"
| "invoke_apply H res t args (Native n) s = (Inl Unmodelled, s)"
| "invoke_apply H res t args (Str name) s =
     (if truthy res then
        (case get_prop res name of
           Inl e \<Rightarrow> (Inl e, s)
         | Inr (Fn g) \<Rightarrow>
             (case call_handler H g t args s of
                (Throws e, s') \<Rightarrow> (Inl (Thrown e), s')
              | (Returns v n, s') \<Rightarrow> (Inr Undefined, s'))
         | Inr (FnWith g kvs) \<Rightarrow>
             (case call_handler H g t args s of
                (Throws e, s') \<Rightarrow> (Inl (Thrown e), s')
              | (Returns v n, s') \<Rightarrow> (Inr Undefined, s'))
         | Inr (Native n) \<Rightarrow> (Inl Unmodelled, s)
         | Inr v \<Rightarrow> (Inl TypeError, s))
      else (Inr Undefined, s))"
| "invoke_apply H res t args Undefined s = (Inr Undefined, s)"
| "invoke_apply H res t args Null s = (Inr Undefined, s)"
| "invoke_apply H res t args (Bool b) s = (Inr Undefined, s)"
| "invoke_apply H res t args (Num n) s = (Inr Undefined, s)"
| "invoke_apply H res t args ObjectPrototype s = (Inr Undefined, s)"
| "invoke_apply H res t args (Obj kvs) s = (Inr Undefined, s)"
| "every H res t args [] s = (Inr (), s)"
| "every H res t args (x # xs) s =
     (case invoke_apply H res t args x s of
        (Inl e, s') \<Rightarrow> (Inl e, s')
      | (Inr v, s') \<Rightarrow> if v = Bool False then (Inr (), s') else every H res t args xs s')"

text \<open>
  \<open>_asyncEverySeries\<close> with the iterator that \<open>invoke\<close> passes in asynchronous mode:
  an entry that is a function is applied to \<open>fns.captures.concat(next)\<close> (a \<open>TypeError\<close>
  when the run-list has no \<open>captures\<close>); for any other entry the iterator does nothing,
  so the continuation \<open>next\<close> is never called. The series ends when the terminal
  callback is called, or it stalls.
\<close>

datatype series_end = Finished "jsval list" | Stalled

fun asyncEverySeries ::
  "'w handlers \<Rightarrow> this_arg \<Rightarrow> jsval list option \<Rightarrow> jsval list \<Rightarrow> 'w world
     \<Rightarrow> (error + series_end) \<times> 'w world" where
  "asyncEverySeries H t caps [] s = (Inr (Finished []), s)"
| "asyncEverySeries H t caps (Fn f # xs) s =
     (case caps of
        None \<Rightarrow> (Inl TypeError, s)
      | Some cs \<Rightarrow>
          (case call_handler H f t cs s of
             (Throws e, s') \<Rightarrow> (Inl (Thrown e), s')
           | (Returns v None, s') \<Rightarrow> (Inr Stalled, s')
           | (Returns v (Some err), s') \<Rightarrow>
               if truthy err \<or> err = Bool False then (Inr (Finished [err]), s')
               else asyncEverySeries H t caps xs s'))"
| "asyncEverySeries H t caps (FnWith f kvs # xs) s =
     (case caps of
        None \<Rightarrow> (Inl TypeError, s)
      | Some cs \<Rightarrow>
          (case call_handler H f t cs s of
             (Throws e, s') \<Rightarrow> (Inl (Thrown e), s')
           | (Returns v None, s') \<Rightarrow> (Inr Stalled, s')
           | (Returns v (Some err), s') \<Rightarrow>
               if truthy err \<or> err = Bool False then (Inr (Finished [err]), s')
               else asyncEverySeries H t caps xs s'))"
| "asyncEverySeries H t caps (Native n # xs) s =
     (case caps of None \<Rightarrow> (Inl TypeError, s) | Some cs \<Rightarrow> (Inl Unmodelled, s))"
| "asyncEverySeries H t caps (x # xs) s = (Inr Stalled, s)"

text \<open>
  \<open>invoke\<close>: in synchronous mode the callback is not used; in asynchronous mode it is
  called with the arguments of the terminal callback when the series finishes.
\<close>

datatype invoke_end = Walked | Series series_end

definition invoke ::
  "'w handlers \<Rightarrow> bool \<Rightarrow> jsval \<Rightarrow> runlist \<Rightarrow> this_arg \<Rightarrow> 'w world
     \<Rightarrow> (error + invoke_end) \<times> 'w world" where
  "invoke H async res rl t s =
     (if async then
        (case asyncEverySeries H t (captures rl) (fns rl) s of
           (Inl e, s') \<Rightarrow> (Inl e, s')
         | (Inr r, s') \<Rightarrow> (Inr (Series r), s'))
      else
        (case every H res t (capture_args (captures rl)) (fns rl) s of
           (Inl e, s') \<Rightarrow> (Inl e, s')
         | (Inr u, s') \<Rightarrow> (Inr Walked, s')))"

section \<open>The router and its regular-expression runtime\<close>

text \<open>
  The fields of a \<open>Router\<close> instance. \<open>methods_table\<close> is the object \<open>_methods\<close> (the
  names that are set in it); \<open>recurse\<close> is only ever compared with \<open>'forward'\<close> and
  tested for truth; \<open>async\<close> and \<open>strict\<close> are only tested for truth; \<open>last_fns\<close> (the field \<open>last\<close>) is
  \<open>undefined\<close> until the first dispatch.
\<close>

datatype recurse_mode = NoRecurse | Backward | Forward

record router =
  params :: params
  routes :: jsval
  methods :: "string list"
  scope :: "string list"
  methods_table :: "string list"
  recurse :: recurse_mode
  async :: bool
  delimiter :: string
  strict :: bool
  notfound :: jsval
  resource :: jsval
  every_after :: jsval
  every_before :: jsval
  every_on :: jsval
  last_fns :: jsval
  invoked :: bool

text \<open>
  The regular-expression engine belongs to the language, not to the router, and is a
  parameter of the model: \<open>rx src s\<close> stands for \<open>s.match(new RegExp(src))\<close>. It raises
  a \<open>SyntaxError\<close> when \<open>src\<close> does not compile, yields \<open>null\<close>, or yields the match
  array: the matched text \<open>match[0]\<close> and the groups \<open>match.slice(1)\<close> (strings, or
  \<open>undefined\<close> for a group that did not take part).
\<close>

datatype rx_result = RxError | RxNull | RxMatch string "jsval list"

type_synonym matcher = "string \<Rightarrow> string \<Rightarrow> rx_result"

section \<open>Traversal: \<open>traverse\<close>\<close>

text \<open>
  The result of a successful traversal is an array of layers carrying the properties
  \<open>after\<close> and \<open>captures\<close> (and \<open>matched = true\<close>); an unsuccessful one is \<open>false\<close>.
\<close>

record matched =
  layers :: "jsval list"
  after :: "jsval list"
  captured :: "jsval list"

text \<open>\<open>node.k\<close> where only plain objects and handlers with properties are read; on
  those it is \<open>get_prop\<close>.\<close>

fun prop_of :: "jsval \<Rightarrow> string \<Rightarrow> jsval" where
  "prop_of (Obj kvs) k = get_key kvs k"
| "prop_of (FnWith f kvs) k = (case map_of kvs k of None \<Rightarrow> Undefined | Some v \<Rightarrow> v)"
| "prop_of v k = Undefined"

text \<open>\<open>this._methods[r]\<close> is read on a plain object: it is truthy for the registered
  names and for the names inherited from \<open>Object.prototype\<close>.\<close>

definition is_method_name :: "router \<Rightarrow> string \<Rightarrow> bool" where
  "is_method_name R r \<longleftrightarrow> r \<in> set (methods_table R) \<or> truthy (inherited r)"

definition is_nested_route :: "router \<Rightarrow> string \<Rightarrow> jsval \<Rightarrow> bool" where
  "is_nested_route R r v \<longleftrightarrow>
     \<not> is_method_name R r \<or> (typeof v = ''object'' \<and> \<not> isArray v)"

definition exact_pattern :: "router \<Rightarrow> string \<Rightarrow> string" where
  "exact_pattern R current =
     (if strict R then current else current @ ''['' @ delimiter R @ '']?'')"

definition terminal_match :: "jsval \<Rightarrow> jsval \<Rightarrow> jsval list \<Rightarrow> matched" where
  "terminal_match node h groups =
     \<lparr>layers = [Arr (filter truthy [prop_of node ''before'', h])],
      after = filter truthy [prop_of node ''after''],
      captured = groups\<rparr>"

definition bubble :: "router \<Rightarrow> jsval \<Rightarrow> matched \<Rightarrow> matched" where
  "bubble R node next =
     (if recurse R \<noteq> NoRecurse then
        \<lparr>layers = layers next @ [Arr (filter truthy [prop_of node ''before'', prop_of node ''on''])],
         after = after next @ filter truthy [prop_of node ''after''],
         captured = captured next\<rparr>
      else
        \<lparr>layers = layers next, after = after next, captured = captured next\<rparr>)"

text \<open>
  \<open>traverse\<close> on a node, and its \<open>for ... in\<close> loop over the own enumerable keys of
  the node. Plain objects and handlers with properties have such keys; the index keys
  of non-empty arrays and strings are not modelled; other values have none. The root
  short-circuit reads \<open>routes[method]\<close> only when the path is the bare delimiter.
\<close>

text \<open>
  The loop calls \<open>routes.hasOwnProperty(r)\<close> for every key it enumerates. On a node
  without an own key \<open>hasOwnProperty\<close> this is the member of \<open>Object.prototype\<close>,
  which answers \<open>true\<close> for each own key. An own key of that name shadows it: the
  call raises a \<open>TypeError\<close> when its value is not callable, and runs the value when
  it is, which is not modelled.
\<close>

definition own_key_test :: "(string \<times> jsval) list \<Rightarrow> error option" where
  "own_key_test kvs =
     (case map_of kvs ''hasOwnProperty'' of
        None \<Rightarrow> None
      | Some v \<Rightarrow> Some (if typeof v = ''function'' then Unmodelled else TypeError))"

definition root_read :: "router \<Rightarrow> string \<Rightarrow> string \<Rightarrow> jsval \<Rightarrow> error + jsval" where
  "root_read R method path node =
     (if path = delimiter R then get_prop node method else Inr Undefined)"

fun traverse ::
      "matcher \<Rightarrow> router \<Rightarrow> string \<Rightarrow> string \<Rightarrow> jsval \<Rightarrow> string \<Rightarrow> error + matched option"
  and traverse_keys ::
      "matcher \<Rightarrow> router \<Rightarrow> string \<Rightarrow> string \<Rightarrow> (string \<times> jsval) list \<Rightarrow> string
         \<Rightarrow> error + matched option"
where
  "traverse rx R method path (Obj kvs) regexp =
     (if path = delimiter R \<and> truthy (get_key kvs method)
      then Inr (Some (terminal_match (Obj kvs) (get_key kvs method) []))
      else
        (case own_key_test kvs of
           Some e \<Rightarrow> Inl e
         | None \<Rightarrow> traverse_keys rx R method path kvs regexp))"
| "traverse rx R method path (FnWith f kvs) regexp =
     (case root_read R method path (FnWith f kvs) of
        Inl e \<Rightarrow> Inl e
      | Inr h \<Rightarrow>
          if truthy h then Inr (Some (terminal_match (FnWith f kvs) h []))
          else
            (case own_key_test kvs of
               Some e \<Rightarrow> Inl e
             | None \<Rightarrow> traverse_keys rx R method path kvs regexp))"
| "traverse rx R method path (Arr xs) regexp =
     (case root_read R method path (Arr xs) of
        Inl e \<Rightarrow> Inl e
      | Inr h \<Rightarrow> if xs = [] then Inr None else Inl Unmodelled)"
| "traverse rx R method path (Str s) regexp =
     (case root_read R method path (Str s) of
        Inl e \<Rightarrow> Inl e
      | Inr h \<Rightarrow> if s = [] then Inr None else Inl Unmodelled)"
| "traverse rx R method path Undefined regexp =
     (case root_read R method path Undefined of Inl e \<Rightarrow> Inl e | Inr h \<Rightarrow> Inr None)"
| "traverse rx R method path Null regexp =
     (case root_read R method path Null of Inl e \<Rightarrow> Inl e | Inr h \<Rightarrow> Inr None)"
| "traverse rx R method path (Bool b) regexp =
     (case root_read R method path (Bool b) of Inl e \<Rightarrow> Inl e | Inr h \<Rightarrow> Inr None)"
| "traverse rx R method path (Num n) regexp =
     (case root_read R method path (Num n) of Inl e \<Rightarrow> Inl e | Inr h \<Rightarrow> Inr None)"
| "traverse rx R method path (Fn f) regexp =
     (case root_read R method path (Fn f) of Inl e \<Rightarrow> Inl e | Inr h \<Rightarrow> Inr None)"
| "traverse rx R method path (Native n) regexp =
     (case root_read R method path (Native n) of Inl e \<Rightarrow> Inl e | Inr h \<Rightarrow> Inr None)"
| "traverse rx R method path ObjectPrototype regexp =
     (case root_read R method path ObjectPrototype of Inl e \<Rightarrow> Inl e | Inr h \<Rightarrow> Inr None)"
| "traverse_keys rx R method path [] regexp = Inr None"
| "traverse_keys rx R method path ((r, v) # rest) regexp =
     (if is_nested_route R r v then
        (case rx (CHR ''^'' # exact_pattern R (regexp @ delimiter R @ r)) path of
           RxError \<Rightarrow> Inl SyntaxError
         | RxNull \<Rightarrow> traverse_keys rx R method path rest regexp
         | RxMatch m0 groups \<Rightarrow>
             (case (if m0 \<noteq> [] \<and> m0 = path then get_prop v method else Inr Undefined) of
                Inl e \<Rightarrow> Inl e
              | Inr h \<Rightarrow>
                  if m0 \<noteq> [] \<and> m0 = path \<and> truthy h
                  then Inr (Some (terminal_match v h groups))
                  else
                    (case traverse rx R method path v (regexp @ delimiter R @ r) of
                       Inl e \<Rightarrow> Inl e
                     | Inr None \<Rightarrow> traverse_keys rx R method path rest regexp
                     | Inr (Some next) \<Rightarrow> Inr (Some (bubble R v next)))))
      else traverse_keys rx R method path rest regexp)"

text \<open>The pattern accumulated from a prefix along a list of keys:
  \<open>regexp + delimiter + r1 + delimiter + r2 ...\<close>, as the recursion of \<open>traverse\<close>
  builds it in \<open>current\<close>.\<close>

definition accumulated :: "router \<Rightarrow> string \<Rightarrow> string list \<Rightarrow> string" where
  "accumulated R regexp keys = regexp @ concat (map (\<lambda>r. delimiter R @ r) keys)"

text \<open>The own enumerable keys of a node, as the \<open>for ... in\<close> loop of \<open>traverse\<close> meets
  them, and the nodes reached from a node along a list of keys of the table.\<close>

fun own_props :: "jsval \<Rightarrow> (string \<times> jsval) list" where
  "own_props (Obj kvs) = kvs"
| "own_props (FnWith f kvs) = kvs"
| "own_props v = []"

fun chain_ends :: "jsval \<Rightarrow> string list \<Rightarrow> jsval list" where
  "chain_ends v [] = [v]"
| "chain_ends v (r # rs) =
     concat (map (\<lambda>(r', v'). if r' = r then chain_ends v' rs else []) (own_props v))"

section \<open>Concrete regular-expression engines\<close>

text \<open>
  The engine of the language on the patterns \<open>traverse\<close> builds from keys made of
  literal text and of the two capture groups the pattern compiler produces
  (\<open>default_capture\<close> for a \<open>:token\<close>, \<open>wildcard_capture\<close> for a \<open>*\<close>), with a
  one-character delimiter: \<open>^items\<close> in strict mode and \<open>^items[c]?\<close> otherwise. An
  item is a character that is not a regular-expression operator, which matches
  itself, or a group \<open>([class]+)\<close>, which matches a non-empty run of characters of
  its class, the longest first (the quantifier is greedy), and captures it.
\<close>

definition regex_operators :: string where
  "regex_operators = backslash # ''^$.|?*+()[]{}''"

definition literal :: "string \<Rightarrow> bool" where
  "literal s \<longleftrightarrow> (\<forall>x \<in> set s. x \<notin> set regex_operators)"

datatype char_class = DefaultClass | WildcardClass

datatype item = Lit char | Group char_class

definition alphanumerics :: string where
  "alphanumerics =
     ''abcdefghijklmnopqrstuvwxyz'' @ ''ABCDEFGHIJKLMNOPQRSTUVWXYZ'' @ ''0123456789''"

text \<open>The classes \<open>[a-zA-Z0-9-]\<close> and \<open>[_.()!\ %@&a-zA-Z0-9-]\<close> (the escaped character
  of the latter is the space).\<close>

fun in_class :: "char_class \<Rightarrow> char \<Rightarrow> bool" where
  "in_class DefaultClass x \<longleftrightarrow> x \<in> set alphanumerics \<or> x = CHR ''-''"
| "in_class WildcardClass x \<longleftrightarrow> x \<in> set alphanumerics \<or> x \<in> set ''-_.()! %@&''"

function parse_items :: "string \<Rightarrow> item list option" where
  "parse_items [] = Some []"
| "parse_items (x # xs) =
     (if prefix default_capture (x # xs)
      then map_option (Cons (Group DefaultClass))
             (parse_items (drop (length default_capture) (x # xs)))
      else if prefix wildcard_capture (x # xs)
      then map_option (Cons (Group WildcardClass))
             (parse_items (drop (length wildcard_capture) (x # xs)))
      else if x \<notin> set regex_operators
      then map_option (Cons (Lit x)) (parse_items xs)
      else None)"
  by pat_completeness auto
termination
  by (relation "measure length") (auto simp: default_capture_def wildcard_capture_def)

text \<open>
  All the ways a sequence of items matches at the start of a subject, in the order a
  backtracking matcher tries them: the captured texts and the rest of the subject.
  The match the language reports is the first one.
\<close>

fun all_matches :: "item list \<Rightarrow> string \<Rightarrow> (string list \<times> string) list" where
  "all_matches [] s = [([], s)]"
| "all_matches (Lit x # its) s =
     (case s of
        [] \<Rightarrow> []
      | y # s' \<Rightarrow> if x = y then all_matches its s' else [])"
| "all_matches (Group cl # its) s =
     concat (map (\<lambda>k. map (\<lambda>(g, rest). (take k s # g, rest)) (all_matches its (drop k s)))
                 (rev [1 ..< Suc (length (takeWhile (in_class cl) s))]))"

definition strip_optional :: "string \<Rightarrow> string \<times> char option" where
  "strip_optional body =
     (case rev body of
        q # b # c # a # rl \<Rightarrow>
          if q = CHR ''?'' \<and> b = CHR '']'' \<and> a = CHR ''['' \<and> literal [c]
          then (rev rl, Some c) else (body, None)
      | _ \<Rightarrow> (body, None))"

text \<open>
  \<open>segment_match src s\<close> is \<open>s.match(new RegExp(src))\<close> for a pattern \<open>src\<close> of this
  class, and \<open>None\<close> for any other pattern, about which it says nothing. The optional
  class at the end takes the next character when it is the delimiter.
\<close>

definition segment_match :: "string \<Rightarrow> string \<Rightarrow> rx_result option" where
  "segment_match src s =
     (case src of
        [] \<Rightarrow> None
      | c0 # body \<Rightarrow>
          if c0 \<noteq> CHR ''^'' then None
          else
            (case strip_optional body of
               (pat, opt) \<Rightarrow>
                 (case parse_items pat of
                    None \<Rightarrow> None
                  | Some its \<Rightarrow>
                      Some
                        (case all_matches its s of
                           [] \<Rightarrow> RxNull
                         | (g, rest) # others \<Rightarrow>
                             (case opt of
                                None \<Rightarrow> RxMatch (take (length s - length rest) s) (map Str g)
                              | Some c \<Rightarrow>
                                  if prefix [c] rest
                                  then RxMatch (take (length s - length rest + 1) s) (map Str g)
                                  else RxMatch (take (length s - length rest) s) (map Str g))))))"

text \<open>The matcher that is \<open>segment_match\<close> on the patterns of the class; it is used
  only on tables all of whose patterns are in the class.\<close>

definition segment_engine :: matcher where
  "segment_engine src s = (case segment_match src s of None \<Rightarrow> RxError | Some res \<Rightarrow> res)"

text \<open>
  The engine of the language on the two patterns built for the key \<open>a|b\<close> under the
  root with delimiter \<open>/\<close>: \<open>^/a|b\<close> and \<open>^/a|b[/]?\<close>. The alternation binds weaker
  than concatenation: the first alternative is \<open>^/a\<close>, the second \<open>b\<close>, respectively
  \<open>b[/]?\<close>, tried at every position. On any other pattern \<open>alternation_match\<close> is a
  placeholder and is not used.
\<close>

definition alternation_match :: matcher where
  "alternation_match src s =
     (if src = ''^/a|b'' \<or> src = ''^/a|b[/]?'' then
        (if prefix ''/a'' s then RxMatch ''/a'' []
         else
           (case dropWhile (\<lambda>x. x \<noteq> CHR ''b'') s of
              [] \<Rightarrow> RxNull
            | b # rest \<Rightarrow>
                if src = ''^/a|b[/]?'' \<and> prefix ''/'' rest then RxMatch ''b/'' []
                else RxMatch ''b'' []))
      else RxNull)"

section \<open>Construction and dispatch: \<open>Router\<close>, \<open>runlist\<close>, \<open>dispatch\<close>\<close>

text \<open>The state after \<open>new Router()\<close>: the constructor followed by \<open>configure()\<close>
  with no options and \<open>mount({})\<close>.\<close>

definition new_router :: router where
  "new_router =
     \<lparr>params = [], routes = Obj [], methods = [''on'', ''after'', ''before''], scope = [],
      methods_table = [''on'', ''after'', ''before''], recurse = NoRecurse, async = False,
      delimiter = ''/'', strict = True, notfound = Undefined, resource = Undefined,
      every_after = Null, every_before = Null, every_on = Null,
      last_fns = Undefined, invoked = False\<rparr>"

text \<open>\<open>xs.concat(v)\<close> with one argument, and \<open>_flatten\<close>, which folds it over an array.\<close>

fun concat_val :: "jsval list \<Rightarrow> jsval \<Rightarrow> jsval list" where
  "concat_val xs (Arr ys) = xs @ ys"
| "concat_val xs v = xs @ [v]"

fun flatten :: "jsval list \<Rightarrow> jsval list \<Rightarrow> jsval list" where
  "flatten flat [] = flat"
| "flatten flat (x # xs) = flatten (concat_val flat x) xs"

definition runlist_of :: "router \<Rightarrow> matched \<Rightarrow> runlist" where
  "runlist_of R m =
     \<lparr>fns = (if truthy (every_before R)
             then concat_val [every_before R] (Arr (flatten [] (layers m)))
             else flatten [] (layers m))
            @ (if truthy (every_on R) then [every_on R] else []),
      captures = Some (captured m)\<rparr>"

text \<open>
  The optional \<open>callback\<close> of \<open>dispatch\<close> is a handler. \<open>invoke\<close> calls it only in
  asynchronous mode, with the arguments of the terminal callback of the series.
\<close>

definition run_callback ::
  "'w handlers \<Rightarrow> nat option \<Rightarrow> invoke_end \<Rightarrow> 'w world \<Rightarrow> (error + unit) \<times> 'w world" where
  "run_callback H cb e s =
     (case (cb, e) of
        (Some c, Series (Finished args)) \<Rightarrow>
          (case call_handler H c (ThisValue Null) args s of
             (Throws x, s') \<Rightarrow> (Inl (Thrown x), s')
           | (Returns v n, s') \<Rightarrow> (Inr (), s'))
      | _ \<Rightarrow> (Inr (), s))"

definition invoke_with_callback ::
  "'w handlers \<Rightarrow> router \<Rightarrow> runlist \<Rightarrow> this_arg \<Rightarrow> nat option \<Rightarrow> 'w world
     \<Rightarrow> (error + unit) \<times> 'w world" where
  "invoke_with_callback H R rl t cb s =
     (case invoke H (async R) (resource R) rl t s of
        (Inl e, s') \<Rightarrow> (Inl e, s')
      | (Inr e, s') \<Rightarrow> run_callback H cb e s')"

definition updateAndInvoke ::
  "'w handlers \<Rightarrow> router \<Rightarrow> matched \<Rightarrow> nat option \<Rightarrow> 'w world
     \<Rightarrow> (error + bool) \<times> router \<times> 'w world" where
  "updateAndInvoke H R m cb s =
     (let R' = R\<lparr>last_fns := Arr (after m)\<rparr> in
      case invoke_with_callback H R' (runlist_of R' m) ThisRouter cb s of
        (Inl e, s') \<Rightarrow> (Inl e, R', s')
      | (Inr u, s') \<Rightarrow> (Inr True, R', s'))"

definition dispatch ::
  "'w handlers \<Rightarrow> matcher \<Rightarrow> router \<Rightarrow> string \<Rightarrow> string \<Rightarrow> nat option \<Rightarrow> 'w world
     \<Rightarrow> (error + bool) \<times> router \<times> 'w world" where
  "dispatch H rx R method path cb s =
     (case traverse rx R method path (routes R) [] of
        Inl e \<Rightarrow> (Inl e, R, s)
      | Inr t \<Rightarrow>
          (let was_invoked = invoked R; R1 = R\<lparr>invoked := True\<rparr> in
           case (case t of None \<Rightarrow> None | Some m \<Rightarrow> if layers m = [] then None else Some m) of
             None \<Rightarrow>
               (let R2 = R1\<lparr>last_fns := Arr []\<rparr> in
                if typeof (notfound R2) = ''function'' then
                  (case invoke_with_callback H R2 \<lparr>fns = [notfound R2], captures = None\<rparr>
                          (ThisValue (Obj [(''method'', Str method), (''path'', Str path)])) cb s of
                     (Inl e, s') \<Rightarrow> (Inl e, R2, s')
                   | (Inr u, s') \<Rightarrow> (Inr False, R2, s'))
                else (Inr False, R2, s))
           | Some m0 \<Rightarrow>
               (let m = (if recurse R1 = Forward then m0\<lparr>layers := rev (layers m0)\<rparr> else m0);
                    aft = (if truthy (every_after R1)
                           then concat_val [every_after R1] (last_fns R1)
                           else [last_fns R1]) in
                if aft \<noteq> [] \<and> was_invoked then
                  (if async R1 then
                     (case invoke H (async R1) (resource R1) \<lparr>fns = aft, captures = None\<rparr>
                             ThisRouter s of
                        (Inl e, s') \<Rightarrow> (Inl e, R1, s')
                      | (Inr (Series (Finished args)), s') \<Rightarrow> updateAndInvoke H R1 m cb s'
                      | (Inr e, s') \<Rightarrow> (Inr True, R1, s'))
                   else
                     (case invoke H (async R1) (resource R1) \<lparr>fns = aft, captures = None\<rparr>
                             ThisRouter s of
                        (Inl e, s') \<Rightarrow> (Inl e, R1, s')
                      | (Inr e, s') \<Rightarrow> updateAndInvoke H R1 m cb s'))
                else updateAndInvoke H R1 m cb s)))"

section \<open>Insertion: \<open>insert\<close>\<close>

text \<open>
  The \<open>switch\<close> on \<open>typeof\<close> of a method slot, shared by the root case and the final
  case of \<open>insert\<close>: a function becomes the pair of itself and the new route; onto an
  \<open>'object'\<close> the route is \<open>push\<close>ed (a \<open>TypeError\<close> when the value is not an array
  and has no callable \<open>push\<close>; the call of a \<open>push\<close> that a plain object provides is
  not modelled); an \<open>undefined\<close> slot takes the route. For any other type no
  \<open>case\<close> applies and control leaves the \<open>switch\<close> (result \<open>None\<close>).
\<close>

definition merge_slot :: "jsval \<Rightarrow> jsval \<Rightarrow> (error + jsval) option" where
  "merge_slot old route =
     (if typeof old = ''function'' then Some (Inr (Arr [old, route]))
      else if typeof old = ''object'' then
        (case old of
           Arr xs \<Rightarrow> Some (Inr (Arr (xs @ [route])))
         | Obj kvs \<Rightarrow>
             Some (Inl (if typeof (get_key kvs ''push'') = ''function'' then Unmodelled
                        else TypeError))
         | _ \<Rightarrow> Some (Inl TypeError))
      else if typeof old = ''undefined'' then Some (Inr route)
      else None)"

text \<open>The key a \<open>part\<close> denotes: \<open>undefined\<close> (an exhausted path) reads as the
  property name \<open>undefined\<close>.\<close>

definition part_key :: "string option \<Rightarrow> string" where
  "part_key part = (case part of None \<Rightarrow> ''undefined'' | Some p \<Rightarrow> p)"

definition compile_part :: "params \<Rightarrow> string \<Rightarrow> string" where
  "compile_part ps p =
     (if CHR '':'' \<in> set p \<or> CHR ''*'' \<in> set p then regifyString p ps else p)"

text \<open>
  The root case (lines 532-548) and the final case (lines 555-580) of \<open>insert\<close>, on
  the value of \<open>parent\<close>. The source changes \<open>parent\<close> and the node \<open>parent[part]\<close> in
  place; here the changed node is written back into its parent. The result is the
  error raised, if any, and \<open>parent\<close> as the call leaves it.
\<close>

definition insert_root :: "string \<Rightarrow> jsval \<Rightarrow> jsval \<Rightarrow> error option \<times> jsval" where
  "insert_root method route parent =
     (case get_prop parent method of
        Inl e \<Rightarrow> (Some e, parent)
      | Inr old \<Rightarrow>
          (case merge_slot old route of
             Some (Inr v) \<Rightarrow>
               (case put_prop parent method v of
                  Inl e \<Rightarrow> (Some e, parent)
                | Inr parent' \<Rightarrow> (None, parent'))
           | Some (Inl e) \<Rightarrow> (Some e, parent)
           | None \<Rightarrow> (None, parent)))"

definition insert_final :: "string \<Rightarrow> string \<Rightarrow> jsval \<Rightarrow> jsval \<Rightarrow> error option \<times> jsval" where
  "insert_final method key route parent =
     (case get_prop parent key of
        Inl e \<Rightarrow> (Some e, parent)
      | Inr node \<Rightarrow>
          if truthy node \<and> \<not> isArray node \<and> typeof node = ''object'' then
            (case get_prop node method of
               Inl e \<Rightarrow> (Some e, parent)
             | Inr old \<Rightarrow>
                 (case merge_slot old route of
                    Some (Inr v) \<Rightarrow>
                      (case put_prop node method v of
                         Inl e \<Rightarrow> (Some e, parent)
                       | Inr node' \<Rightarrow>
                           (case put_prop parent key node' of
                              Inl e \<Rightarrow> (Some e, parent)
                            | Inr parent' \<Rightarrow> (None, parent')))
                  | Some (Inl e) \<Rightarrow> (Some e, parent)
                  | None \<Rightarrow> (Some (InvalidRouteContext (typeof node)), parent)))
          else if typeof node = ''undefined'' then
            (case put_prop (Obj []) method route of
               Inl e \<Rightarrow> (Some e, parent)
             | Inr nested \<Rightarrow>
                 (case put_prop parent key nested of
                    Inl e \<Rightarrow> (Some e, parent)
                  | Inr parent' \<Rightarrow> (None, parent')))
          else (Some (InvalidRouteContext (typeof node)), parent))"

text \<open>
  \<open>insert(method, path, route, parent)\<close>; \<open>is_root\<close> says whether
  \<open>parent === this.routes\<close>. While segments remain after the first, the source sets
  \<open>parent[part] = parent[part] || {}\<close> and recurses into \<open>parent[part]\<close>, whatever
  kind of value that is.
\<close>

function insert_route ::
  "params \<Rightarrow> bool \<Rightarrow> string \<Rightarrow> string list \<Rightarrow> jsval \<Rightarrow> jsval \<Rightarrow> error option \<times> jsval" where
  "insert_route ps is_root method path route parent =
     (if tl (filter (\<lambda>p. p \<noteq> []) path) \<noteq> [] then
        (case get_prop parent (compile_part ps (hd (filter (\<lambda>p. p \<noteq> []) path))) of
           Inl e \<Rightarrow> (Some e, parent)
         | Inr c \<Rightarrow>
             (case put_prop parent (compile_part ps (hd (filter (\<lambda>p. p \<noteq> []) path)))
                     (if truthy c then c else Obj []) of
                Inl e \<Rightarrow> (Some e, parent)
              | Inr parent1 \<Rightarrow>
                  (case insert_route ps False method (tl (filter (\<lambda>p. p \<noteq> []) path)) route
                          (if truthy c then c else Obj []) of
                     (err, child') \<Rightarrow>
                       (case put_prop parent1
                               (compile_part ps (hd (filter (\<lambda>p. p \<noteq> []) path))) child' of
                          Inl e \<Rightarrow> (Some e, parent1)
                        | Inr parent2 \<Rightarrow> (err, parent2)))))
      else
        (let part = (case filter (\<lambda>p. p \<noteq> []) path of
                       [] \<Rightarrow> None
                     | p # rest \<Rightarrow> Some (compile_part ps p)) in
         if (part = None \<or> part = Some []) \<and> is_root
         then insert_root method route parent
         else insert_final method (part_key part) route parent))"
  by pat_completeness auto
termination
proof (relation "measure (\<lambda>(ps, is_root, m, path, route, parent). length path)")
  show "wf (measure (\<lambda>(ps, is_root, m, path, route, parent). length path))"
    by simp
next
  fix ps :: params and is_root :: bool and m :: string and path :: "string list"
    and route parent c parent1 :: jsval
  assume "tl (filter (\<lambda>p. p \<noteq> []) path) \<noteq> []"
  then have "filter (\<lambda>p. p \<noteq> []) path \<noteq> []"
    by auto
  then have "length (tl (filter (\<lambda>p. p \<noteq> []) path)) < length (filter (\<lambda>p. p \<noteq> []) path)"
    by simp
  also have "\<dots> \<le> length path"
    by simp
  finally show "((ps, False, m, tl (filter (\<lambda>p. p \<noteq> []) path), route,
                  if truthy c then c else Obj []),
                 (ps, is_root, m, path, route, parent))
                \<in> measure (\<lambda>(ps, is_root, m, path, route, parent). length path)"
    by simp
qed

declare insert_route.simps [simp del]

text \<open>The table keys a path denotes (empty segments dropped, patterns compiled), and
  the node reached from a value along a list of keys through plain objects.\<close>

definition path_keys :: "params \<Rightarrow> string list \<Rightarrow> string list" where
  "path_keys ps path = map (compile_part ps) (filter (\<lambda>p. p \<noteq> []) path)"

fun child_of :: "jsval \<Rightarrow> string \<Rightarrow> jsval" where
  "child_of (Obj kvs) k = get_key kvs k"
| "child_of v k = Undefined"

fun node_at :: "jsval \<Rightarrow> string list \<Rightarrow> jsval" where
  "node_at v [] = v"
| "node_at v (k # ks) = node_at (child_of v k) ks"

section \<open>Declarations: \<open>param\<close>, \<open>on\<close>, \<open>path\<close>\<close>

text \<open>
  The declaration methods use two more services of the regular-expression runtime,
  again parameters of the model: \<open>rx_split d s\<close> stands for
  \<open>s.split(new RegExp(d))\<close> and \<open>rx_replace_all t\<close> for compiling
  \<open>new RegExp(t, 'g')\<close>, giving the function that maps a replacement and a subject
  to \<open>subject.replace(compiled, replacement)\<close>. Both yield \<open>None\<close> when the source
  does not compile (a \<open>SyntaxError\<close>).
\<close>

record regexp_runtime =
  rx_split :: "string \<Rightarrow> string \<Rightarrow> string list option"
  rx_replace_all :: "string \<Rightarrow> (string \<Rightarrow> string \<Rightarrow> string) option"

text \<open>A path argument is a string or a \<open>RegExp\<close> object, of which only \<open>source\<close> is
  read; in the source of a \<open>RegExp\<close> every \<open>\<^verbatim>\<open>\/\<close>\<close> is replaced by \<open>/\<close>.\<close>

datatype path_arg = PathString string | PathRegExp string

fun unescape_slashes :: "string \<Rightarrow> string" where
  "unescape_slashes [] = []"
| "unescape_slashes [c] = [c]"
| "unescape_slashes (c # d # cs) =
     (if c = backslash \<and> d = CHR ''/'' then CHR ''/'' # unescape_slashes cs
      else c # unescape_slashes (d # cs))"

fun path_source :: "path_arg \<Rightarrow> string" where
  "path_source (PathString s) = s"
| "path_source (PathRegExp src) = (if src = [] then src else unescape_slashes src)"

text \<open>\<open>param(token, matcher)\<close>; the matcher is given by \<open>matcher.source || matcher\<close>.\<close>

fun set_param :: "params \<Rightarrow> string \<Rightarrow> (string \<Rightarrow> string) \<Rightarrow> params" where
  "set_param [] k f = [(k, f)]"
| "set_param ((k', f') # ps) k f =
     (if k' = k then (k, f) # ps else (k', f') # set_param ps k f)"

definition router_param ::
  "regexp_runtime \<Rightarrow> router \<Rightarrow> string \<Rightarrow> string \<Rightarrow> error option \<times> router" where
  "router_param rt R token matcher =
     (let token' = (if token \<noteq> [] \<and> hd token = CHR '':'' then token else CHR '':'' # token) in
      case rx_replace_all rt token' of
        None \<Rightarrow> (Some SyntaxError, R)
      | Some replace \<Rightarrow> (None, R\<lparr>params := set_param (params R) token' (replace matcher)\<rparr>))"

text \<open>
  \<open>on(method, path, route)\<close> for a path that is a string or a \<open>RegExp\<close>; the method is
  a name or an array of names, for which \<open>on\<close> is called in turn. The two-argument
  call \<open>on(path, fn)\<close> is \<open>on('on', path, fn)\<close>.
\<close>

datatype method_arg = Method string | Methods "string list"

definition on_one ::
  "regexp_runtime \<Rightarrow> router \<Rightarrow> string \<Rightarrow> string \<Rightarrow> jsval \<Rightarrow> error option \<times> router" where
  "on_one rt R method path route =
     (case rx_split rt (delimiter R) path of
        None \<Rightarrow> (Some SyntaxError, R)
      | Some parts \<Rightarrow>
          (case insert_route (params R) True method (scope R @ parts) route (routes R) of
             (err, routes') \<Rightarrow> (err, R\<lparr>routes := routes'\<rparr>)))"

fun on_each ::
  "regexp_runtime \<Rightarrow> router \<Rightarrow> string list \<Rightarrow> string \<Rightarrow> jsval \<Rightarrow> error option \<times> router" where
  "on_each rt R [] path route = (None, R)"
| "on_each rt R (m # ms) path route =
     (case on_one rt R m path route of
        (None, R') \<Rightarrow> on_each rt R' ms path route
      | (Some e, R') \<Rightarrow> (Some e, R'))"

definition router_on ::
  "regexp_runtime \<Rightarrow> router \<Rightarrow> method_arg \<Rightarrow> path_arg \<Rightarrow> jsval \<Rightarrow> error option \<times> router" where
  "router_on rt R method path route =
     (case method of
        Methods ms \<Rightarrow> on_each rt R ms (path_source path) route
      | Method m \<Rightarrow> on_one rt R m (path_source path) route)"

text \<open>
  \<open>path(path, routesFn)\<close>: the scope is extended by the segments of the path,
  \<open>routesFn\<close> runs, and \<open>splice(length, path.length)\<close> removes as many entries as were
  added, from the position where they were added. An error raised by \<open>routesFn\<close>
  leaves the method before the \<open>splice\<close>.
\<close>

definition splice_out :: "'a list \<Rightarrow> nat \<Rightarrow> nat \<Rightarrow> 'a list" where
  "splice_out xs start n = take start xs @ drop (start + n) xs"

definition router_path ::
  "regexp_runtime \<Rightarrow> router \<Rightarrow> path_arg \<Rightarrow> (router \<Rightarrow> error option \<times> router)
     \<Rightarrow> error option \<times> router" where
  "router_path rt R path routesFn =
     (case rx_split rt (delimiter R) (path_source path) of
        None \<Rightarrow> (Some SyntaxError, R)
      | Some parts \<Rightarrow>
          (case routesFn (R\<lparr>scope := scope R @ parts\<rparr>) of
             (Some e, R') \<Rightarrow> (Some e, R')
           | (None, R') \<Rightarrow>
               (None, R'\<lparr>scope := splice_out (scope R') (length (scope R)) (length parts)\<rparr>)))"

text \<open>
  The body of a \<open>routesFn\<close>: a sequence of calls of the declaration methods on the
  router it is given. A \<open>routesFn\<close> that reaches into the fields of the router in any
  other way is outside the model. The equation for a nested \<open>path\<close> call is
  \<open>router_path\<close> with the remaining declarations as its \<open>routesFn\<close>, written out.
\<close>

datatype decl =
    On method_arg path_arg jsval
  | OnDefault path_arg nat
  | Param string string
  | Path path_arg "decl list"

fun exec_decl :: "regexp_runtime \<Rightarrow> decl \<Rightarrow> router \<Rightarrow> error option \<times> router"
  and exec_decls :: "regexp_runtime \<Rightarrow> decl list \<Rightarrow> router \<Rightarrow> error option \<times> router"
where
  "exec_decl rt (On m p route) R = router_on rt R m p route"
| "exec_decl rt (OnDefault p f) R = router_on rt R (Method ''on'') p (Fn f)"
| "exec_decl rt (Param token matcher) R = router_param rt R token matcher"
| "exec_decl rt (Path p body) R =
     (case rx_split rt (delimiter R) (path_source p) of
        None \<Rightarrow> (Some SyntaxError, R)
      | Some parts \<Rightarrow>
          (case exec_decls rt body (R\<lparr>scope := scope R @ parts\<rparr>) of
             (Some e, R') \<Rightarrow> (Some e, R')
           | (None, R') \<Rightarrow>
               (None, R'\<lparr>scope := splice_out (scope R') (length (scope R)) (length parts)\<rparr>)))"
| "exec_decls rt [] R = (None, R)"
| "exec_decls rt (d # ds) R =
     (case exec_decl rt d R of
        (None, R') \<Rightarrow> exec_decls rt ds R'
      | (Some e, R') \<Rightarrow> (Some e, R'))"

text \<open>
  A runtime for concrete runs. It agrees with the language when the delimiter is a
  single ordinary character (\<open>split\<close> on that character) and when tokens and matchers
  contain no regular-expression or \<open>$\<close> metacharacters (every occurrence of the
  token is replaced).
\<close>

fun split_on :: "char \<Rightarrow> string \<Rightarrow> string list" where
  "split_on c [] = [[]]"
| "split_on c (x # xs) =
     (if x = c then [] # split_on c xs
      else (case split_on c xs of [] \<Rightarrow> [[x]] | w # ws \<Rightarrow> (x # w) # ws))"

definition literal_runtime :: regexp_runtime where
  "literal_runtime =
     \<lparr>rx_split = (\<lambda>d s. case d of [c] \<Rightarrow> Some (split_on c s) | _ \<Rightarrow> None),
      rx_replace_all = (\<lambda>t. Some (\<lambda>rep s. replace_all t rep s))\<rparr>"

text \<open>
  Two \<open>routesFn\<close> that are not sequences of declarations: one that throws, and one
  that calls \<open>path\<close> with the throwing one and catches what it throws:
  \<^verbatim>\<open>function () { try { this.path('/b', function () { throw 'stop' }) } catch (e) {} }\<close>.
\<close>

definition throwing_body :: "router \<Rightarrow> error option \<times> router" where
  "throwing_body R = (Some (Thrown (Str ''stop'')), R)"

definition catching_body :: "regexp_runtime \<Rightarrow> router \<Rightarrow> error option \<times> router" where
  "catching_body rt R = (None, snd (router_path rt R (PathString ''/b'') throwing_body))"

section \<open>Properties of the pattern compiler\<close>

lemma paramify_loop_filter:
  "paramify_loop str ps str =
     (case filter (\<lambda>(k, f). f str \<noteq> str) ps of [] \<Rightarrow> str | (k, f) # _ \<Rightarrow> f str)"
  by (induction ps) (auto simp: Let_def)

lemma match_tokens_single:
  assumes "CHR '':'' \<notin> set pre" "rest \<noteq> []" "CHR ''/'' \<notin> set rest"
  shows "match_tokens (pre @ CHR '':'' # rest) = [CHR '':'' # rest]"
  using assms
proof (induction pre)
  case Nil
  have tw: "takeWhile (\<lambda>x. x \<noteq> CHR ''/'') rest = rest"
    using Nil by (auto intro: takeWhile_eq_all_conv [THEN iffD2])
  have dw: "dropWhile (\<lambda>x. x \<noteq> CHR ''/'') rest = []"
    using Nil by auto
  from Nil have "hd rest \<noteq> CHR ''/''" by (cases rest) auto
  with Nil show ?case by (simp add: tw dw del: dropWhile_eq_Nil_conv takeWhile_eq_all_conv)
next
  case (Cons c pre)
  then show ?case by auto
qed

lemma index_of_after_prefix:
  assumes "CHR '':'' \<notin> set pre"
  shows "index_of (CHR '':'' # rest) (pre @ CHR '':'' # rest) = Some (length pre)"
  using assms by (induction pre) auto

text \<open>
  Claim C6. When a segment is compiled, a \<open>:token\<close> is offered to the registered
  substitution functions in registration order; the first function whose output differs
  from the token supplies the replacement, and when no function changes the token the
  replacement is the default capture group \<open>([a-zA-Z0-9-]+)\<close>. In a segment
  \<open>pre:rest\<close> (no colon or wildcard before the token, no slash or wildcard in it) the
  token text is replaced, in place, by that replacement (expanded as
  \<open>String.prototype.replace\<close> expands a replacement string).
\<close>

theorem regify_first_changing_substitution:
  "paramifyString tok ps =
     (case filter (\<lambda>(k, f). f tok \<noteq> tok) ps of
        [] \<Rightarrow> default_capture
      | (k, f) # _ \<Rightarrow> f tok)
   \<and> (CHR '':'' \<notin> set pre \<and> CHR ''*'' \<notin> set pre \<and> rest \<noteq> []
        \<and> CHR ''/'' \<notin> set rest \<and> CHR ''*'' \<notin> set rest \<longrightarrow>
      regifyString (pre @ CHR '':'' # rest) ps =
        pre @ get_subst (CHR '':'' # rest) pre [] (paramifyString (CHR '':'' # rest) ps))"
proof (intro conjI impI)
  show "paramifyString tok ps =
     (case filter (\<lambda>(k, f). f tok \<noteq> tok) ps of
        [] \<Rightarrow> default_capture
      | (k, f) # _ \<Rightarrow> f tok)"
    unfolding paramifyString_def Let_def paramify_loop_filter
    by (auto split: list.splits dest: filter_eq_ConsD)
next
  assume h: "CHR '':'' \<notin> set pre \<and> CHR ''*'' \<notin> set pre \<and> rest \<noteq> []
        \<and> CHR ''/'' \<notin> set rest \<and> CHR ''*'' \<notin> set rest"
  then have ew: "expand_wildcards (pre @ CHR '':'' # rest) = pre @ CHR '':'' # rest"
    by (simp add: expand_wildcards_def)
  from h show "regifyString (pre @ CHR '':'' # rest) ps =
        pre @ get_subst (CHR '':'' # rest) pre [] (paramifyString (CHR '':'' # rest) ps)"
    by (simp add: regifyString_def ew match_tokens_single str_replace_def index_of_after_prefix)
qed

theorem regify_first_changing_substitution_witness:
  "paramifyString '':id''
       [('':name'', replace_all '':name'' ''([a-z]+)''), ('':id'', replace_all '':id'' ''([0-9]+)''),
        ('':id'', replace_all '':id'' ''late'')] = ''([0-9]+)''
   \<and> paramifyString '':id'' [('':name'', replace_all '':name'' ''([a-z]+)'')] = ''([a-zA-Z0-9-]+)''
   \<and> regifyString ''user-:id''
       [('':name'', replace_all '':name'' ''([a-z]+)''), ('':id'', replace_all '':id'' ''([0-9]+)'')]
     = ''user-([0-9]+)''"
proof -
  let ?ps = "[('':name'', replace_all '':name'' ''([a-z]+)''),
              ('':id'', replace_all '':id'' ''([0-9]+)''),
              ('':id'', replace_all '':id'' ''late'')]"
  let ?qs = "[('':name'', replace_all '':name'' ''([a-z]+)'')]"
  let ?rs = "[('':name'', replace_all '':name'' ''([a-z]+)''),
              ('':id'', replace_all '':id'' ''([0-9]+)'')]"
  have a: "paramifyString '':id'' ?ps = ''([0-9]+)''"
    using regify_first_changing_substitution [of "'':id''" ?ps "[]" "[]"] by simp
  have b: "paramifyString '':id'' ?qs = ''([a-zA-Z0-9-]+)''"
    using regify_first_changing_substitution [of "'':id''" ?qs "[]" "[]"]
    by (simp add: default_capture_def)
  have c: "regifyString ''user-:id'' ?rs = ''user-([0-9]+)''"
    using regify_first_changing_substitution [of "'':id''" ?rs "''user-''" "''id''"] by simp
  from a b c show ?thesis by simp
qed

lemma live_iff: "live (c # cs) \<longleftrightarrow> c = CHR '':'' \<and> cs \<noteq> [] \<and> hd cs \<noteq> CHR ''/''"
  by (cases cs) auto

lemma live_prefix: "live tok \<Longrightarrow> prefix tok u \<Longrightarrow> live u"
  by (cases tok rule: live.cases) (auto simp: prefix_def)

lemma live_append: "live tok \<Longrightarrow> live (tok @ rest)"
  by (cases tok rule: live.cases) auto

lemma get_subst_plain: "CHR ''$'' \<notin> set r \<Longrightarrow> get_subst m b a r = r"
  by (induction m b a r rule: get_subst.induct) auto

lemma index_of_no_live:
  assumes "live tok" "no_live pre (tok @ rest)"
  shows "index_of tok (pre @ tok @ rest) = Some (length pre)"
  using assms
proof (induction pre)
  case Nil
  then obtain c cs where "tok = c # cs" by (cases tok) auto
  then show ?case by simp
next
  case (Cons p pre)
  from Cons.prems have "\<not> live (p # pre @ tok @ rest)" by simp
  with Cons.prems(1) have "\<not> prefix tok (p # pre @ tok @ rest)"
    using live_prefix by blast
  with Cons show ?case by simp
qed

lemma str_replace_no_live:
  assumes "live tok" "no_live pre (tok @ rest)" "CHR ''$'' \<notin> set r"
  shows "str_replace (pre @ tok @ rest) tok r = pre @ r @ rest"
  using assms by (simp add: str_replace_def index_of_no_live get_subst_plain)

lemma no_live_plain: "CHR '':'' \<notin> set r \<Longrightarrow> no_live r t"
proof (induction r)
  case Nil
  then show ?case by simp
next
  case (Cons c r)
  then show ?case by (cases "r @ t") auto
qed

lemma no_live_after_token:
  assumes "no_live pre (CHR '':'' # cs)" "CHR '':'' \<notin> set r"
  shows "no_live (pre @ r) rest"
  using assms
proof (induction pre)
  case Nil
  then show ?case by (simp add: no_live_plain)
next
  case (Cons p pre)
  then show ?case by (cases pre) (auto simp: live_iff)
qed

lemma no_live_step:
  assumes "no_live pre (c # cs)" "\<not> live (c # cs)"
  shows "no_live (pre @ [c]) cs"
  using assms
proof (induction pre)
  case Nil
  then show ?case by simp
next
  case (Cons p pre)
  then show ?case by (cases pre) auto
qed

lemma match_tokens_no_live: "no_live u [] \<Longrightarrow> match_tokens u = []"
  by (induction u) (auto simp: live_iff)

lemma replace_captures_settles:
  assumes "no_live pre t" "CHR ''*'' \<notin> set (pre @ t)"
    and "\<forall>tok \<in> set (match_tokens t). plain_fragment (paramifyString tok ps)"
  shows "no_live (replace_captures ps (match_tokens t) (pre @ t)) []
         \<and> CHR ''*'' \<notin> set (replace_captures ps (match_tokens t) (pre @ t))"
  using assms
proof (induction t arbitrary: pre rule: match_tokens.induct)
  case 1
  then show ?case by simp
next
  case (2 c cs)
  let ?nz = "\<lambda>x. x \<noteq> CHR ''/''"
  show ?case
  proof (cases "c = CHR '':'' \<and> cs \<noteq> [] \<and> hd cs \<noteq> CHR ''/''")
    case True
    let ?tok = "c # takeWhile ?nz cs"
    let ?rest = "dropWhile ?nz cs"
    let ?r = "paramifyString ?tok ps"
    have mt: "match_tokens (c # cs) = ?tok # match_tokens ?rest"
      using True by simp
    have split: "c # cs = ?tok @ ?rest"
      by simp
    have "takeWhile ?nz cs \<noteq> []"
      using True by (cases cs) auto
    moreover have "hd (takeWhile ?nz cs) \<noteq> CHR ''/''"
      using True by (cases cs) auto
    ultimately have lv: "live ?tok"
      using True by (simp add: live_iff)
    have plain: "plain_fragment ?r"
      using "2.prems"(3) mt by simp
    have nl: "no_live pre (?tok @ ?rest)"
      using "2.prems"(1) by simp
    have rep: "str_replace (pre @ c # cs) ?tok ?r = (pre @ ?r) @ ?rest"
      using str_replace_no_live [OF lv nl, of ?r] plain
      by (simp add: plain_fragment_def)
    have nl': "no_live (pre @ ?r) ?rest"
      using no_live_after_token [of pre cs ?r ?rest] "2.prems"(1) True plain
      by (simp add: plain_fragment_def)
    have "set ?rest \<subseteq> set cs"
      by (simp add: set_dropWhileD subsetI)
    then have star: "CHR ''*'' \<notin> set ((pre @ ?r) @ ?rest)"
      using "2.prems"(2) plain by (auto simp: plain_fragment_def)
    have toks: "\<forall>tok \<in> set (match_tokens ?rest). plain_fragment (paramifyString tok ps)"
      using "2.prems"(3) mt by simp
    have "no_live (replace_captures ps (match_tokens ?rest) ((pre @ ?r) @ ?rest)) []
          \<and> CHR ''*'' \<notin> set (replace_captures ps (match_tokens ?rest) ((pre @ ?r) @ ?rest))"
      using "2.IH"(1) [OF True nl' star toks] .
    then show ?thesis
      by (simp add: mt rep del: match_tokens.simps)
  next
    case False
    have mt: "match_tokens (c # cs) = match_tokens cs"
      using False by auto
    have nlv: "\<not> live (c # cs)"
      using False by (simp add: live_iff)
    have nl': "no_live (pre @ [c]) cs"
      using no_live_step [OF "2.prems"(1) nlv] .
    have star: "CHR ''*'' \<notin> set ((pre @ [c]) @ cs)"
      using "2.prems"(2) by simp
    have toks: "\<forall>tok \<in> set (match_tokens cs). plain_fragment (paramifyString tok ps)"
      using "2.prems"(3) mt by simp
    have "no_live (replace_captures ps (match_tokens cs) ((pre @ [c]) @ cs)) []
          \<and> CHR ''*'' \<notin> set (replace_captures ps (match_tokens cs) ((pre @ [c]) @ cs))"
      using "2.IH"(2) [OF False nl' star toks] .
    then show ?thesis
      by (simp add: mt del: match_tokens.simps)
  qed
qed

lemma expand_wildcards_no_star: "CHR ''*'' \<notin> set (expand_wildcards s)"
  by (auto simp: expand_wildcards_def wildcard_capture_def backslash_def)

lemma regifyString_settled:
  assumes "no_live u []" "CHR ''*'' \<notin> set u"
  shows "regifyString u ps = u"
  using assms by (simp add: regifyString_def expand_wildcards_def match_tokens_no_live)

text \<open>
  Claim C9, as amended. Compiling a compiled segment changes nothing whenever every
  token of the segment was replaced by a fragment that contains none of \<open>:\<close>, \<open>*\<close>
  and \<open>$\<close>; this covers every segment when no substitution is registered, since the
  default and wildcard groups are such fragments. As stated for every substitution
  mapping the claim fails: a substitution whose output contains \<open>*\<close> or \<open>:\<close> is
  expanded again by the second compilation.
\<close>

theorem regify_idempotent_on_plain_fragments:
  assumes "\<forall>tok \<in> set (match_tokens (expand_wildcards s)). plain_fragment (paramifyString tok ps)"
  shows "regifyString (regifyString s ps) ps = regifyString s ps"
proof -
  have "no_live [] (expand_wildcards s)"
    by simp
  moreover have "CHR ''*'' \<notin> set ([] @ expand_wildcards s)"
    by (simp add: expand_wildcards_no_star)
  ultimately have "no_live (replace_captures ps (match_tokens (expand_wildcards s))
                      ([] @ expand_wildcards s)) []
      \<and> CHR ''*'' \<notin> set (replace_captures ps (match_tokens (expand_wildcards s))
                      ([] @ expand_wildcards s))"
    using assms by (rule replace_captures_settles)
  then have "no_live (regifyString s ps) []" and "CHR ''*'' \<notin> set (regifyString s ps)"
    by (simp_all add: regifyString_def Let_def)
  then show ?thesis
    by (rule regifyString_settled)
qed

theorem regify_idempotent_on_plain_fragments_witness:
  "match_tokens (expand_wildcards ''files/*/:id'') = ['':id'']
   \<and> plain_fragment (paramifyString '':id'' [('':id'', replace_all '':id'' ''([0-9]+)'')])
   \<and> regifyString (regifyString ''files/*/:id'' [('':id'', replace_all '':id'' ''([0-9]+)'')])
         [('':id'', replace_all '':id'' ''([0-9]+)'')]
       = regifyString ''files/*/:id'' [('':id'', replace_all '':id'' ''([0-9]+)'')]"
proof -
  have t: "match_tokens (expand_wildcards ''files/*/:id'') = ['':id'']"
    by code_simp
  have f: "plain_fragment (paramifyString '':id'' [('':id'', replace_all '':id'' ''([0-9]+)'')])"
    by code_simp
  have h: "\<forall>tok \<in> set (match_tokens (expand_wildcards ''files/*/:id'')).
       plain_fragment (paramifyString tok [('':id'', replace_all '':id'' ''([0-9]+)'')])"
    unfolding t using f by simp
  show ?thesis
    using t f regify_idempotent_on_plain_fragments [OF h] by simp
qed

theorem regify_not_idempotent_counterexample:
  "regifyString (regifyString '':id'' [('':id'', replace_all '':id'' ''([0-9]*)'')])
       [('':id'', replace_all '':id'' ''([0-9]*)'')]
     \<noteq> regifyString '':id'' [('':id'', replace_all '':id'' ''([0-9]*)'')]"
  by code_simp

section \<open>Properties of invocation\<close>

text \<open>
  What the synchronous walk does on a flat list: a function entry that returns exactly
  \<open>false\<close> ends the walk of its list, and an entry that is neither a function, a
  string nor an array is passed over.
\<close>

lemma every_stops_at_false:
  assumes "H f t args (snd s) = (Returns (Bool False) n, w')"
  shows "every H res t args (Fn f # rest) s = (Inr (), (fst s @ [(f, t, args)], w'))"
  using assms by (simp add: call_handler_def)

lemma every_skips_other_entries:
  assumes "typeof v \<noteq> ''function''" "typeof v \<noteq> ''string''" "\<not> isArray v"
  shows "every H res t args (v # rest) s = every H res t args rest s"
  using assms by (cases v) simp_all

text \<open>
  Claim C1 (synchronous mode: a handler returning exactly \<open>false\<close> stops the walk, and
  every later handler of the invocation is skipped). The code stops only the list the
  handler sits in: \<open>_every\<close> returns \<open>undefined\<close>, so the \<open>false\<close> of a handler inside
  a nested list does not reach the enclosing walk. In the run-list \<open>[[h1, h2], h3]\<close>
  with \<open>h1\<close> returning \<open>false\<close>, \<open>h2\<close> is skipped but \<open>h3\<close> is still invoked, and no
  error is raised.
\<close>

theorem invoke_nested_false_continues:
  "invoke (\<lambda>f t a w. (Returns (if f = 1 then Bool False else Undefined) None, w))
          False Undefined \<lparr>fns = [Arr [Fn 1, Fn 2], Fn 3], captures = None\<rparr> ThisRouter ([], ())
     = (Inr Walked, ([(1, ThisRouter, []), (3, ThisRouter, [])], ()))"
  by (simp add: invoke_def capture_args_def call_handler_def)

text \<open>
  Claim C8 (an entry that is not a function, string or array is skipped and the walk
  goes on, in both modes). In asynchronous mode the iterator does nothing for such an
  entry and never calls the continuation: the series stalls, the handler after the
  entry is never invoked and the terminal callback is never called. In the run-list
  \<open>[1, h]\<close> the handler \<open>h\<close> is not invoked.
\<close>

theorem invoke_async_non_function_stalls:
  "invoke (\<lambda>f t a w. (Returns Undefined (Some Undefined), w))
          True Undefined \<lparr>fns = [Num 1, Fn 1], captures = Some []\<rparr> ThisRouter ([], ())
     = (Inr (Series Stalled), ([], ()))"
  by (simp add: invoke_def)

section \<open>Properties of traversal and dispatch\<close>

text \<open>
  Claim C2. For every method and every table whose root node holds a (truthy) handler
  for the method, traversing the bare delimiter returns at once: the primary layer is
  the root's \<open>before\<close> and method handlers with absent entries filtered out, the
  after-layer is the root's \<open>after\<close> handler, and the captures are empty. The sibling
  keys are not looked at: the result does not depend on them or on the matcher.
\<close>

theorem traverse_root_short_circuit:
  assumes "truthy (get_key kvs method)"
  shows "traverse rx R method (delimiter R) (Obj kvs) regexp =
           Inr (Some \<lparr>layers = [Arr (filter truthy [get_key kvs ''before'', get_key kvs method])],
                      after = filter truthy [get_key kvs ''after''],
                      captured = []\<rparr>)"
  using assms by (simp add: terminal_match_def)

theorem traverse_root_short_circuit_witness:
  "truthy (get_key [(''on'', Fn 1), (''after'', Fn 2), (''users'', Obj [(''on'', Fn 3)])] ''on'')
   \<and> traverse (\<lambda>src s. RxError) new_router ''on'' ''/''
        (Obj [(''on'', Fn 1), (''after'', Fn 2), (''users'', Obj [(''on'', Fn 3)])]) []
      = Inr (Some \<lparr>layers = [Arr [Fn 1]], after = [Fn 2], captured = []\<rparr>)"
proof -
  have t: "truthy (get_key [(''on'', Fn 1), (''after'', Fn 2), (''users'', Obj [(''on'', Fn 3)])] ''on'')"
    by (simp add: get_key_def)
  have d: "delimiter new_router = ''/''"
    by (simp add: new_router_def)
  show ?thesis
    using t traverse_root_short_circuit [OF t, of "\<lambda>src s. RxError" new_router "[]"]
    by (simp add: d get_key_def inherited_def object_prototype_members_def)
qed

text \<open>
  In synchronous mode a dispatch that matches nothing returns \<open>false\<close>, having
  invoked the not-found handler once with the object \<open>{method, path}\<close> as receiver,
  or nothing when no function is configured.
\<close>

lemma dispatch_unmatched_sync:
  assumes "traverse rx R m p (routes R) [] = Inr None" "\<not> async R"
  shows "notfound R = Fn f \<Longrightarrow> H f (ThisValue (Obj [(''method'', Str m), (''path'', Str p)])) [] (snd s)
             = (Returns v n, w') \<Longrightarrow>
           dispatch H rx R m p cb s =
             (Inr False, R\<lparr>invoked := True, last_fns := Arr []\<rparr>,
              (fst s @ [(f, ThisValue (Obj [(''method'', Str m), (''path'', Str p)]), [])], w'))"
    and "typeof (notfound R) \<noteq> ''function'' \<Longrightarrow>
           dispatch H rx R m p cb s = (Inr False, R\<lparr>invoked := True, last_fns := Arr []\<rparr>, s)"
  using assms
  by (simp_all add: dispatch_def invoke_with_callback_def invoke_def capture_args_def
        call_handler_def run_callback_def Let_def split: option.splits)

text \<open>
  Claim C3 (a dispatch that matches no route returns \<open>false\<close> and invokes the configured
  not-found handler exactly once). In asynchronous mode the not-found run-list
  \<open>[this.notfound]\<close> has no \<open>captures\<close> property, and \<open>invoke\<close> evaluates
  \<open>fns.captures.concat(next)\<close>: \<open>dispatch\<close> raises a \<open>TypeError\<close>, it does not return
  \<open>false\<close>, and the not-found handler is never invoked.
\<close>

theorem dispatch_async_notfound_raises:
  "dispatch H rx (new_router\<lparr>async := True, notfound := Fn 0\<rparr>) ''on'' ''/missing'' None ([], w)
     = (Inl TypeError,
        new_router\<lparr>async := True, notfound := Fn 0, last_fns := Arr [], invoked := True\<rparr>,
        ([], w))"
  by (simp add: dispatch_def new_router_def invoke_with_callback_def invoke_def
        own_key_test_def)

section \<open>The segment engine and a trailing delimiter\<close>

lemma all_matches_suffix:
  "(g, rest) \<in> set (all_matches its s) \<Longrightarrow> suffix rest s"
proof (induction its arbitrary: s g)
  case Nil
  then show ?case by simp
next
  case (Cons it its)
  show ?case
  proof (cases it)
    case (Lit x)
    with Cons.prems obtain y s' where s: "s = y # s'" and "x = y"
      and "(g, rest) \<in> set (all_matches its s')"
      by (cases s) (auto split: if_splits)
    then have "suffix rest s'" using Cons.IH by blast
    with s show ?thesis by (simp add: suffix_Cons)
  next
    case (Group cl)
    with Cons.prems obtain k g' where "(g', rest) \<in> set (all_matches its (drop k s))"
      by auto
    then have "suffix rest (drop k s)" using Cons.IH by blast
    then show ?thesis using suffix_drop suffix_order.trans by blast
  qed
qed

lemma all_matches_empty_rest:
  "(g, rest) \<in> set (all_matches its []) \<Longrightarrow> rest = []"
  using all_matches_suffix [of g rest its "[]"] by simp

lemma filter_rest_empty_subject:
  "filter (\<lambda>(g, rest). rest \<noteq> []) (all_matches its []) = []"
  by (auto simp: filter_empty_conv dest: all_matches_empty_rest)

lemma takeWhile_snoc_length:
  "length (takeWhile P (s @ [c])) =
     (if (\<forall>x \<in> set s. P x) \<and> P c then Suc (length s) else length (takeWhile P s))"
  by (induction s) auto

lemma all_matches_group_extend:
  assumes IH: "\<And>s. filter (\<lambda>(g, rest). rest \<noteq> []) (all_matches its (s @ [c]))
                 = map (\<lambda>(g, rest). (g, rest @ [c])) (all_matches its s)"
    and k: "k \<le> length s"
  shows "filter (\<lambda>(g, rest). rest \<noteq> [])
           (map (\<lambda>(g, rest). (take k (s @ [c]) # g, rest)) (all_matches its (drop k (s @ [c]))))
         = map (\<lambda>(g, rest). (g, rest @ [c]))
             (map (\<lambda>(g, rest). (take k s # g, rest)) (all_matches its (drop k s)))"
proof -
  have "filter (\<lambda>(g, rest). rest \<noteq> [])
           (map (\<lambda>(g, rest). (take k (s @ [c]) # g, rest)) (all_matches its (drop k (s @ [c]))))
        = map (\<lambda>(g, rest). (take k s # g, rest))
            (filter (\<lambda>(g, rest). rest \<noteq> []) (all_matches its (drop k s @ [c])))"
    using k by (simp add: filter_map comp_def case_prod_unfold)
  also have "\<dots> = map (\<lambda>(g, rest). (take k s # g, rest))
            (map (\<lambda>(g, rest). (g, rest @ [c])) (all_matches its (drop k s)))"
    by (simp only: IH)
  finally show ?thesis
    by (simp add: comp_def case_prod_unfold)
qed

lemma all_matches_extend:
  "filter (\<lambda>(g, rest). rest \<noteq> []) (all_matches its (s @ [c]))
     = map (\<lambda>(g, rest). (g, rest @ [c])) (all_matches its s)"
proof (induction its arbitrary: s)
  case Nil
  show ?case by simp
next
  case (Cons it its)
  show ?case
  proof (cases it)
    case (Lit x)
    show ?thesis
    proof (cases s)
      case Nil
      with Lit show ?thesis by (simp add: filter_rest_empty_subject)
    next
      case (Cons y s')
      with Lit Cons.IH [of s'] show ?thesis by simp
    qed
  next
    case (Group cl)
    let ?n = "length (takeWhile (in_class cl) s)"
    let ?F = "\<lambda>(g :: string list, rest :: string). rest \<noteq> []"
    let ?f' = "\<lambda>k. map (\<lambda>(g, rest). (take k (s @ [c]) # g, rest))
                     (all_matches its (drop k (s @ [c])))"
    let ?f = "\<lambda>k. map (\<lambda>(g, rest). (take k s # g, rest)) (all_matches its (drop k s))"
    let ?ext = "\<lambda>(g :: string list, rest :: string). (g, rest @ [c])"
    have n: "?n \<le> length s" by (rule length_takeWhile_le)
    have old: "filter ?F (concat (map ?f' (rev [1 ..< Suc ?n])))
                 = map ?ext (concat (map ?f (rev [1 ..< Suc ?n])))"
    proof -
      have "\<And>k. k \<in> set (rev [1 ..< Suc ?n]) \<Longrightarrow> filter ?F (?f' k) = map ?ext (?f k)"
        using all_matches_group_extend [of its c _ s, OF Cons.IH] n by auto
      then have "map (\<lambda>k. filter ?F (?f' k)) (rev [1 ..< Suc ?n])
                   = map (\<lambda>k. map ?ext (?f k)) (rev [1 ..< Suc ?n])"
        by (intro map_cong) auto
      then show ?thesis
        by (simp only: filter_concat map_concat map_map comp_def)
    qed
    show ?thesis
    proof (cases "(\<forall>x \<in> set s. in_class cl x) \<and> in_class cl c")
      case False
      then have "length (takeWhile (in_class cl) (s @ [c])) = ?n"
        by (auto simp: takeWhile_snoc_length)
      with Group old show ?thesis by simp
    next
      case True
      then have tw: "takeWhile (in_class cl) s = s"
        by (simp add: takeWhile_eq_all_conv)
      from True have n': "length (takeWhile (in_class cl) (s @ [c])) = Suc ?n" and ns: "?n = length s"
        by (simp_all add: takeWhile_snoc_length tw)
      have top: "filter ?F (?f' (Suc ?n)) = []"
        using ns by (auto simp: filter_empty_conv dest: all_matches_empty_rest)
      have "rev [1 ..< Suc (Suc ?n)] = Suc ?n # rev [1 ..< Suc ?n]"
        by simp
      then have "filter ?F (all_matches (Group cl # its) (s @ [c]))
                   = filter ?F (?f' (Suc ?n)) @ filter ?F (concat (map ?f' (rev [1 ..< Suc ?n])))"
        using n' by (simp del: upt_Suc)
      with top old Group show ?thesis by (simp del: upt_Suc)
    qed
  qed
qed

lemma all_matches_stable:
  assumes "all_matches its p = (g, []) # others"
  shows "\<exists>g' rest' others'. all_matches its (p @ [c]) = (g', rest') # others'
           \<and> (rest' = [] \<or> (g' = g \<and> rest' = [c]))"
proof -
  let ?F = "\<lambda>(g :: string list, rest :: string). rest \<noteq> []"
  have f: "filter ?F (all_matches its (p @ [c]))
             = (g, [c]) # map (\<lambda>(g, rest). (g, rest @ [c])) others"
    using all_matches_extend [of its p c] assms by simp
  then obtain g' rest' others' where l: "all_matches its (p @ [c]) = (g', rest') # others'"
    by (cases "all_matches its (p @ [c])") auto
  show ?thesis
  proof (cases "rest' = []")
    case True
    with l show ?thesis by simp
  next
    case False
    with f l have "(g', rest') = (g, [c])" by simp
    with l show ?thesis by simp
  qed
qed

lemma parse_items_no_question:
  "parse_items s = Some its \<Longrightarrow> CHR ''?'' \<notin> set s"
proof (induction s arbitrary: its rule: parse_items.induct)
  case 1
  show ?case by simp
next
  case (2 x xs)
  show ?case
  proof (cases "prefix default_capture (x # xs)")
    case True
    then have s: "x # xs = default_capture @ drop (length default_capture) (x # xs)"
      by (metis append_eq_conv_conj prefix_def)
    from 2(4) True obtain its' where
      "parse_items (drop (length default_capture) (x # xs)) = Some its'"
      by (auto simp del: parse_items.simps simp add: parse_items.simps(2) [of x xs])
    then have "CHR ''?'' \<notin> set (drop (length default_capture) (x # xs))"
      using 2(1) [OF True] by blast
    moreover have "CHR ''?'' \<notin> set default_capture"
      by (simp add: default_capture_def)
    ultimately show ?thesis
      by (subst s) (simp only: set_append Un_iff, blast)
  next
    case nd: False
    show ?thesis
    proof (cases "prefix wildcard_capture (x # xs)")
      case True
      then have s: "x # xs = wildcard_capture @ drop (length wildcard_capture) (x # xs)"
        by (metis append_eq_conv_conj prefix_def)
      from 2(4) nd True obtain its' where
        "parse_items (drop (length wildcard_capture) (x # xs)) = Some its'"
        by (auto simp del: parse_items.simps simp add: parse_items.simps(2) [of x xs])
      then have "CHR ''?'' \<notin> set (drop (length wildcard_capture) (x # xs))"
        using 2(2) [OF nd True] by blast
      moreover have "CHR ''?'' \<notin> set wildcard_capture"
        by (simp add: wildcard_capture_def backslash_def)
      ultimately show ?thesis
        by (subst s) (simp only: set_append Un_iff, blast)
    next
      case nw: False
      from 2(4) nd nw obtain its' where op: "x \<notin> set regex_operators"
        and "parse_items xs = Some its'"
        by (auto simp del: parse_items.simps simp add: parse_items.simps(2) [of x xs]
              split: if_splits)
      then have "CHR ''?'' \<notin> set xs"
        using 2(3) [OF nd nw] by blast
      moreover from op have "x \<noteq> CHR ''?''"
        by (auto simp: regex_operators_def)
      ultimately show ?thesis by simp
    qed
  qed
qed

lemma strip_optional_none:
  assumes "CHR ''?'' \<notin> set body"
  shows "strip_optional body = (body, None)"
proof (cases "rev body")
  case Nil
  then show ?thesis by (simp add: strip_optional_def)
next
  case (Cons q rl)
  then have "q \<in> set body"
    by (metis list.set_intros(1) set_rev)
  with assms have "q \<noteq> CHR ''?''" by auto
  with Cons show ?thesis
    by (simp add: strip_optional_def split: list.splits)
qed

lemma strip_optional_suffix:
  assumes "literal [c]"
  shows "strip_optional (pat @ [CHR ''['', c, CHR '']'', CHR ''?'']) = (pat, Some c)"
  using assms by (simp add: strip_optional_def)

lemma strip_optional_not_literal:
  assumes "\<not> literal [c]"
  shows "strip_optional (pat @ [CHR ''['', c, CHR '']'', CHR ''?''])
           = (pat @ [CHR ''['', c, CHR '']'', CHR ''?''], None)"
  using assms by (simp add: strip_optional_def)

lemma segment_match_optional_parses:
  assumes "segment_match (CHR ''^'' # pat @ ''['' @ [c] @ '']?'') q = Some res"
  shows "literal [c] \<and> (\<exists>its. parse_items pat = Some its)"
proof (cases "literal [c]")
  case True
  with assms strip_optional_suffix [OF True, of pat] show ?thesis
    by (auto simp: segment_match_def split: option.splits)
next
  case False
  have "parse_items (pat @ [CHR ''['', c, CHR '']'', CHR ''?'']) = None"
    using parse_items_no_question [of "pat @ [CHR ''['', c, CHR '']'', CHR ''?'']"]
    by (cases "parse_items (pat @ [CHR ''['', c, CHR '']'', CHR ''?''])") auto
  with assms strip_optional_not_literal [OF False, of pat] show ?thesis
    by (simp add: segment_match_def)
qed

lemma segment_match_whole:
  assumes "parse_items pat = Some its"
    and "segment_match (CHR ''^'' # pat) p = Some (RxMatch p gs)"
  shows "\<exists>g others. all_matches its p = (g, []) # others \<and> gs = map Str g"
proof -
  have st: "strip_optional pat = (pat, None)"
    using parse_items_no_question [OF assms(1)] by (rule strip_optional_none)
  from assms st obtain g rest others where
    l: "all_matches its p = (g, rest) # others"
    and t: "take (length p - length rest) p = p" and gs: "gs = map Str g"
    by (cases "all_matches its p") (auto simp: segment_match_def)
  have "suffix rest p"
    using all_matches_suffix [of g rest its p] l by simp
  then have le: "length rest \<le> length p" by (rule suffix_length_le)
  have "length (take (length p - length rest) p) = length p"
    by (simp only: t)
  then have "min (length p - length rest) (length p) = length p"
    by (simp only: length_take min.commute)
  with le have "length rest = 0" by arith
  then have "rest = []" by simp
  with l gs show ?thesis by simp
qed

lemma segment_match_trailing:
  assumes "parse_items pat = Some its" "literal [c]"
    and "segment_match (CHR ''^'' # pat) p = Some (RxMatch p gs)"
  shows "segment_match (CHR ''^'' # pat @ ''['' @ [c] @ '']?'') p = Some (RxMatch p gs)"
    and "\<exists>gs'. segment_match (CHR ''^'' # pat @ ''['' @ [c] @ '']?'') (p @ [c])
                 = Some (RxMatch (p @ [c]) gs')"
proof -
  from segment_match_whole [OF assms(1,3)] obtain g others where
    l: "all_matches its p = (g, []) # others" and gs: "gs = map Str g"
    by blast
  have st: "strip_optional (pat @ [CHR ''['', c, CHR '']'', CHR ''?'']) = (pat, Some c)"
    by (rule strip_optional_suffix [OF assms(2)])
  show "segment_match (CHR ''^'' # pat @ ''['' @ [c] @ '']?'') p = Some (RxMatch p gs)"
    using st assms(1) l gs by (simp add: segment_match_def)
  from all_matches_stable [OF l, of c] obtain g' rest' others' where
    l': "all_matches its (p @ [c]) = (g', rest') # others'"
    and r: "rest' = [] \<or> (g' = g \<and> rest' = [c])"
    by blast
  from r show "\<exists>gs'. segment_match (CHR ''^'' # pat @ ''['' @ [c] @ '']?'') (p @ [c])
                 = Some (RxMatch (p @ [c]) gs')"
  proof
    assume "rest' = []"
    with st assms(1) l' show ?thesis by (simp add: segment_match_def)
  next
    assume "g' = g \<and> rest' = [c]"
    with st assms(1) l' show ?thesis by (simp add: segment_match_def)
  qed
qed

lemma all_matches_nonempty_items:
  "its \<noteq> [] \<Longrightarrow> all_matches its [] = []"
  by (cases its; cases "hd its") auto

lemma parse_items_nonempty:
  "parse_items s = Some its \<Longrightarrow> s \<noteq> [] \<Longrightarrow> its \<noteq> []"
  by (cases s) (auto split: if_splits)

section \<open>Strict and non-strict matching\<close>

lemma accumulated_Cons:
  "accumulated R (regexp @ delimiter R @ r) keys = accumulated R regexp (r # keys)"
  by (simp add: accumulated_def)

lemma accumulated_single: "accumulated R regexp [r] = regexp @ delimiter R @ r"
  by (simp add: accumulated_def)

lemma captured_bubble [simp]: "captured (bubble R v next) = captured next"
  by (simp add: bubble_def)

lemma captured_terminal [simp]: "captured (terminal_match v h groups) = groups"
  by (simp add: terminal_match_def)

lemma traverse_keys_Some_cases:
  assumes "traverse_keys rx R m p ((r, v) # rest) regexp = Inr (Some res)"
  obtains
    (later) "traverse_keys rx R m p rest regexp = Inr (Some res)"
  | (terminal) groups h where
      "is_nested_route R r v"
      "rx (CHR ''^'' # exact_pattern R (regexp @ delimiter R @ r)) p = RxMatch p groups"
      "p \<noteq> []" "get_prop v m = Inr h" "truthy h" "res = terminal_match v h groups"
  | (deeper) m0 groups nxt where
      "is_nested_route R r v"
      "rx (CHR ''^'' # exact_pattern R (regexp @ delimiter R @ r)) p = RxMatch m0 groups"
      "traverse rx R m p v (regexp @ delimiter R @ r) = Inr (Some nxt)" "res = bubble R v nxt"
proof (cases "is_nested_route R r v")
  case False
  with assms later show ?thesis by simp
next
  case nested: True
  show ?thesis
  proof (cases "rx (CHR ''^'' # exact_pattern R (regexp @ delimiter R @ r)) p")
    case RxError
    with nested assms show ?thesis by simp
  next
    case RxNull
    with nested assms later show ?thesis by simp
  next
    case (RxMatch m0 groups)
    show ?thesis
    proof (cases "m0 \<noteq> [] \<and> m0 = p")
      case True
      then have whole: "m0 = p" "p \<noteq> []" by auto
      note RxMatch = RxMatch [unfolded whole(1)]
      show ?thesis
      proof (cases "get_prop v m")
        case (Inl e)
        with nested RxMatch whole assms show ?thesis by simp
      next
        case (Inr h)
        show ?thesis
        proof (cases "truthy h")
          case True
          with nested RxMatch whole Inr assms have "res = terminal_match v h groups"
            by simp
          with nested RxMatch whole Inr True terminal show ?thesis by simp
        next
          case False
          show ?thesis
          proof (cases "traverse rx R m p v (regexp @ delimiter R @ r)")
            case (Inl e)
            with nested RxMatch whole \<open>get_prop v m = Inr h\<close> False assms show ?thesis by simp
          next
            case deep: (Inr t)
            show ?thesis
            proof (cases t)
              case None
              with nested RxMatch whole \<open>get_prop v m = Inr h\<close> False deep assms later
              show ?thesis by simp
            next
              case (Some nxt)
              with nested RxMatch whole \<open>get_prop v m = Inr h\<close> False deep assms
              have "res = bubble R v nxt" by simp
              with nested RxMatch deep Some deeper show ?thesis by simp
            qed
          qed
        qed
      qed
    next
      case part: False
      show ?thesis
      proof (cases "traverse rx R m p v (regexp @ delimiter R @ r)")
        case (Inl e)
        with nested RxMatch part assms show ?thesis by auto
      next
        case deep: (Inr t)
        show ?thesis
        proof (cases t)
          case None
          with nested RxMatch part deep assms later show ?thesis by auto
        next
          case (Some nxt)
          with nested RxMatch part deep assms have "res = bubble R v nxt" by auto
          with nested RxMatch deep Some deeper show ?thesis by simp
        qed
      qed
    qed
  qed
qed

lemma chain_ends_Obj_Cons:
  "set (chain_ends (Obj ((r, v) # kvs)) (k # ks))
     = (if r = k then set (chain_ends v ks) else {}) \<union> set (chain_ends (Obj kvs) (k # ks))"
  by simp

lemma chain_ends_FnWith:
  "keys \<noteq> [] \<Longrightarrow> chain_ends (FnWith f kvs) keys = chain_ends (Obj kvs) keys"
  by (cases keys) simp_all

lemma traverse_keys_strict_exact:
  assumes "strict R" "p \<noteq> delimiter R"
    and nodes: "\<And>r v regexp res. (r, v) \<in> set kvs \<Longrightarrow>
            traverse rx R m p v regexp = Inr (Some res) \<Longrightarrow>
            \<exists>keys e h. keys \<noteq> [] \<and> e \<in> set (chain_ends v keys)
               \<and> get_prop e m = Inr h \<and> truthy h
               \<and> rx (CHR ''^'' # accumulated R regexp keys) p = RxMatch p (captured res)"
    and "traverse_keys rx R m p kvs regexp = Inr (Some res)"
  shows "\<exists>keys e h. keys \<noteq> [] \<and> e \<in> set (chain_ends (Obj kvs) keys)
           \<and> get_prop e m = Inr h \<and> truthy h
           \<and> rx (CHR ''^'' # accumulated R regexp keys) p = RxMatch p (captured res)"
  using nodes assms(4)
proof (induction kvs)
  case Nil
  then show ?case by simp
next
  case (Cons kv kvs)
  obtain r v where kv: "kv = (r, v)" by (cases kv)
  let ?cur = "regexp @ delimiter R @ r"
  have pat: "exact_pattern R ?cur = ?cur"
    using assms(1) by (simp add: exact_pattern_def)
  from Cons.prems(2) [unfolded kv] show ?case
  proof (cases rule: traverse_keys_Some_cases)
    case later
    have "\<exists>keys e h. keys \<noteq> [] \<and> e \<in> set (chain_ends (Obj kvs) keys)
           \<and> get_prop e m = Inr h \<and> truthy h
           \<and> rx (CHR ''^'' # accumulated R regexp keys) p = RxMatch p (captured res)"
    proof (rule Cons.IH [OF _ later])
      fix r' v' regexp' res'
      assume "(r', v') \<in> set kvs" and "traverse rx R m p v' regexp' = Inr (Some res')"
      then show "\<exists>keys e h. keys \<noteq> [] \<and> e \<in> set (chain_ends v' keys)
          \<and> get_prop e m = Inr h \<and> truthy h
          \<and> rx (CHR ''^'' # accumulated R regexp' keys) p = RxMatch p (captured res')"
        using Cons.prems(1) [of r' v' regexp' res'] by simp
    qed
    then obtain keys e h where k: "keys \<noteq> []" and e: "e \<in> set (chain_ends (Obj kvs) keys)"
      and h: "get_prop e m = Inr h" "truthy h"
      and x: "rx (CHR ''^'' # accumulated R regexp keys) p = RxMatch p (captured res)"
      by blast
    from k obtain k0 ks where keys: "keys = k0 # ks" by (cases keys) auto
    from e have "e \<in> set (chain_ends (Obj (kv # kvs)) keys)"
      unfolding kv keys chain_ends_Obj_Cons by simp
    with k h x show ?thesis by blast
  next
    case (terminal groups h)
    then have "rx (CHR ''^'' # accumulated R regexp [r]) p = RxMatch p (captured res)"
      by (simp add: accumulated_single pat)
    moreover have "v \<in> set (chain_ends (Obj (kv # kvs)) [r])"
      by (simp add: kv)
    moreover have "[r] \<noteq> []" by simp
    ultimately show ?thesis
      using terminal(4,5) by blast
  next
    case (deeper m0 groups nxt)
    then obtain keys e h where k: "keys \<noteq> []" and e: "e \<in> set (chain_ends v keys)"
      and h: "get_prop e m = Inr h" "truthy h"
      and x: "rx (CHR ''^'' # accumulated R ?cur keys) p = RxMatch p (captured nxt)"
      using Cons.prems(1) [of r v ?cur nxt] kv by auto
    from x have "rx (CHR ''^'' # accumulated R regexp (r # keys)) p = RxMatch p (captured res)"
      using deeper(4) by (simp add: accumulated_Cons)
    moreover from e have "e \<in> set (chain_ends (Obj (kv # kvs)) (r # keys))"
      unfolding kv chain_ends_Obj_Cons by simp
    moreover have "r # keys \<noteq> []" by simp
    ultimately show ?thesis
      using h by blast
  qed
qed

lemma traverse_strict_exact:
  assumes "strict R" "p \<noteq> delimiter R"
  shows "traverse rx R m p node regexp = Inr (Some res) \<Longrightarrow>
     \<exists>keys e h. keys \<noteq> [] \<and> e \<in> set (chain_ends node keys)
        \<and> get_prop e m = Inr h \<and> truthy h
        \<and> rx (CHR ''^'' # accumulated R regexp keys) p = RxMatch p (captured res)"
proof (induction node arbitrary: regexp res)
  case (Obj kvs)
  from Obj.prems assms(2) have tk: "traverse_keys rx R m p kvs regexp = Inr (Some res)"
    by (simp split: option.splits)
  show ?case
  proof (rule traverse_keys_strict_exact [OF assms _ tk])
    fix r v regexp' res'
    assume "(r, v) \<in> set kvs" and "traverse rx R m p v regexp' = Inr (Some res')"
    then show "\<exists>keys e h. keys \<noteq> [] \<and> e \<in> set (chain_ends v keys)
        \<and> get_prop e m = Inr h \<and> truthy h
        \<and> rx (CHR ''^'' # accumulated R regexp' keys) p = RxMatch p (captured res')"
      using Obj.IH [of "(r, v)" v regexp' res'] by simp
  qed
next
  case (FnWith f kvs)
  from FnWith.prems assms(2) have tk: "traverse_keys rx R m p kvs regexp = Inr (Some res)"
    by (simp add: root_read_def split: option.splits)
  have "\<exists>keys e h. keys \<noteq> [] \<and> e \<in> set (chain_ends (Obj kvs) keys)
        \<and> get_prop e m = Inr h \<and> truthy h
        \<and> rx (CHR ''^'' # accumulated R regexp keys) p = RxMatch p (captured res)"
  proof (rule traverse_keys_strict_exact [OF assms _ tk])
    fix r v regexp' res'
    assume "(r, v) \<in> set kvs" and "traverse rx R m p v regexp' = Inr (Some res')"
    then show "\<exists>keys e h. keys \<noteq> [] \<and> e \<in> set (chain_ends v keys)
        \<and> get_prop e m = Inr h \<and> truthy h
        \<and> rx (CHR ''^'' # accumulated R regexp' keys) p = RxMatch p (captured res')"
      using FnWith.IH [of "(r, v)" v regexp' res'] by simp
  qed
  then show ?case
    using chain_ends_FnWith [of _ f kvs] by metis
qed (simp_all add: root_read_def split: if_splits sum.splits)

lemma traverse_keys_skip:
  assumes "\<forall>(r0, v0) \<in> set pre. is_nested_route R r0 v0 \<longrightarrow>
             rx (CHR ''^'' # exact_pattern R (regexp @ delimiter R @ r0)) p = RxNull"
  shows "traverse_keys rx R m p (pre @ kvs) regexp = traverse_keys rx R m p kvs regexp"
  using assms by (induction pre) auto

lemma own_key_test_None:
  "''hasOwnProperty'' \<notin> fst ` set kvs \<Longrightarrow> own_key_test kvs = None"
  by (simp add: own_key_test_def map_of_eq_None_iff [THEN iffD2])

lemma traverse_nonstrict_extended:
  assumes "\<not> strict R" "q \<noteq> []" "q \<noteq> delimiter R"
    and own: "''hasOwnProperty'' \<notin> fst ` set (pre @ (r, v) # rest)"
    and "is_nested_route R r v" "get_prop v m = Inr h" "truthy h"
    and "rx (CHR ''^'' # (regexp @ delimiter R @ r) @ ''['' @ delimiter R @ '']?'') q
           = RxMatch q groups"
    and "\<forall>(r0, v0) \<in> set pre. is_nested_route R r0 v0 \<longrightarrow>
           rx (CHR ''^'' # exact_pattern R (regexp @ delimiter R @ r0)) q = RxNull"
  shows "traverse rx R m q (Obj (pre @ (r, v) # rest)) regexp =
           Inr (Some (terminal_match v h groups))"
proof -
  have pat: "exact_pattern R (regexp @ delimiter R @ r)
               = (regexp @ delimiter R @ r) @ ''['' @ delimiter R @ '']?''"
    using assms(1) by (simp add: exact_pattern_def)
  have "traverse_keys rx R m q ((r, v) # rest) regexp =
          Inr (Some (terminal_match v h groups))"
    using assms(2,5,6,7,8) unfolding traverse_keys.simps pat by simp
  then have "traverse_keys rx R m q (pre @ (r, v) # rest) regexp =
          Inr (Some (terminal_match v h groups))"
    using traverse_keys_skip [of pre R rx regexp q m "(r, v) # rest"] assms(9)
    by simp
  then show ?thesis
    using assms(3) own_key_test_None [OF own] by simp
qed

lemma segment_match_nonempty_subject:
  assumes "parse_items pat = Some its" "pat \<noteq> []"
    and "segment_match (CHR ''^'' # pat) p = Some (RxMatch p gs)"
  shows "p \<noteq> []"
proof
  assume "p = []"
  with segment_match_whole [OF assms(1,3)] obtain g others where
    "all_matches its [] = (g, []) # others"
    by blast
  moreover have "all_matches its [] = []"
    using parse_items_nonempty [OF assms(1,2)] by (rule all_matches_nonempty_items)
  ultimately show False by simp
qed

lemma traverse_nonstrict_trailing:
  assumes "\<not> strict R" "delimiter R = [c]" "p \<noteq> [c]"
    and own: "''hasOwnProperty'' \<notin> fst ` set (pre @ (r, v) # rest)"
    and whole: "segment_match (CHR ''^'' # accumulated R regexp [r]) p = Some (RxMatch p gs)"
    and agree: "segment_match (CHR ''^'' # accumulated R regexp [r] @ ''['' @ [c] @ '']?'') p
             = Some (rx (CHR ''^'' # accumulated R regexp [r] @ ''['' @ [c] @ '']?'') p)"
          "segment_match (CHR ''^'' # accumulated R regexp [r] @ ''['' @ [c] @ '']?'') (p @ [c])
             = Some (rx (CHR ''^'' # accumulated R regexp [r] @ ''['' @ [c] @ '']?'') (p @ [c]))"
    and node: "is_nested_route R r v" "get_prop v m = Inr h" "truthy h"
    and sib: "\<forall>(r0, v0) \<in> set pre. is_nested_route R r0 v0 \<longrightarrow>
           rx (CHR ''^'' # exact_pattern R (regexp @ delimiter R @ r0)) p = RxNull
           \<and> rx (CHR ''^'' # exact_pattern R (regexp @ delimiter R @ r0)) (p @ [c]) = RxNull"
  shows "traverse rx R m p (Obj (pre @ (r, v) # rest)) regexp
           = Inr (Some (terminal_match v h gs))"
    and "\<exists>gs'. traverse rx R m (p @ [c]) (Obj (pre @ (r, v) # rest)) regexp
           = Inr (Some (terminal_match v h gs'))"
proof -
  let ?acc = "accumulated R regexp [r]"
  let ?ext = "CHR ''^'' # ?acc @ ''['' @ [c] @ '']?''"
  have acc: "?acc = regexp @ delimiter R @ r"
    by (rule accumulated_single)
  from segment_match_optional_parses [OF agree(1)] obtain its where
    lit: "literal [c]" and its: "parse_items ?acc = Some its"
    by blast
  have ne: "?acc \<noteq> []"
    using assms(2) by (simp add: acc)
  have pne: "p \<noteq> []"
    by (rule segment_match_nonempty_subject [OF its ne whole])
  have mp: "rx ?ext p = RxMatch p gs"
    using segment_match_trailing(1) [OF its lit whole] agree(1) by simp
  from segment_match_trailing(2) [OF its lit whole] obtain gs' where
    mq: "rx ?ext (p @ [c]) = RxMatch (p @ [c]) gs'"
    using agree(2) by auto
  have sp: "\<forall>(r0, v0) \<in> set pre. is_nested_route R r0 v0 \<longrightarrow>
           rx (CHR ''^'' # exact_pattern R (regexp @ delimiter R @ r0)) p = RxNull"
    and sq: "\<forall>(r0, v0) \<in> set pre. is_nested_route R r0 v0 \<longrightarrow>
           rx (CHR ''^'' # exact_pattern R (regexp @ delimiter R @ r0)) (p @ [c]) = RxNull"
    using sib by auto
  have pd: "p \<noteq> delimiter R" and qne: "p @ [c] \<noteq> []" and qd: "p @ [c] \<noteq> delimiter R"
    using assms(2,3) pne by simp_all
  have mp': "rx (CHR ''^'' # (regexp @ delimiter R @ r) @ ''['' @ delimiter R @ '']?'') p
               = RxMatch p gs"
    using mp by (simp add: acc assms(2))
  have mq': "rx (CHR ''^'' # (regexp @ delimiter R @ r) @ ''['' @ delimiter R @ '']?'') (p @ [c])
               = RxMatch (p @ [c]) gs'"
    using mq by (simp add: acc assms(2))
  show "traverse rx R m p (Obj (pre @ (r, v) # rest)) regexp
           = Inr (Some (terminal_match v h gs))"
    by (rule traverse_nonstrict_extended
          [where R = R and q = p and r = r and v = v and m = m and h = h and rx = rx
             and regexp = regexp and groups = gs and pre = pre and rest = rest])
       (fact assms(1) pne pd own node mp' sp)+
  have "traverse rx R m (p @ [c]) (Obj (pre @ (r, v) # rest)) regexp
           = Inr (Some (terminal_match v h gs'))"
    by (rule traverse_nonstrict_extended
          [where R = R and q = "p @ [c]" and r = r and v = v and m = m and h = h and rx = rx
             and regexp = regexp and groups = gs' and pre = pre and rest = rest])
       (fact assms(1) qne qd own node mq' sq)+
  then show "\<exists>gs'. traverse rx R m (p @ [c]) (Obj (pre @ (r, v) # rest)) regexp
           = Inr (Some (terminal_match v h gs'))"
    by blast
qed

text \<open>
  Claim C7, as amended. In strict mode, for every matcher, table and path other than
  the bare delimiter (which the root short-circuit answers without consulting any
  pattern), traversal succeeds only if there is a chain of keys of the table, ending
  at a node that holds a handler for the method, such that the pattern accumulated
  along the chain matches the entire path, with the captures traversal reports. In
  non-strict mode the pattern tried at a key is the accumulated pattern followed by an
  optional delimiter class, and a path that this pattern matches entirely matches at
  the key (when the node has a handler, no key of the parent shadows
  \<open>hasOwnProperty\<close> and no earlier sibling key matches the path).
  For a one-character delimiter and an accumulated pattern made of literal text and
  of the capture groups the pattern compiler produces for \<open>:token\<close> and \<open>*\<close>, every
  path that the accumulated pattern matches entirely matches at the key, and so does
  that path followed by one trailing delimiter (whatever the sibling keys are, when
  none of the earlier ones matches either path). For keys with other
  regular-expression operators the trailing delimiter need not be accepted: the
  optional class is appended to the text of the pattern, so that after \<open>a|b\<close> it
  belongs to the second alternative only.
\<close>

theorem strict_exact_nonstrict_trailing:
  "(strict R \<and> p \<noteq> delimiter R \<and> traverse rx R m p node regexp = Inr (Some res) \<longrightarrow>
      (\<exists>keys e h. keys \<noteq> [] \<and> e \<in> set (chain_ends node keys)
         \<and> get_prop e m = Inr h \<and> truthy h
         \<and> rx (CHR ''^'' # accumulated R regexp keys) p = RxMatch p (captured res)))
   \<and> (\<not> strict R \<and> q \<noteq> [] \<and> q \<noteq> delimiter R
        \<and> ''hasOwnProperty'' \<notin> fst ` set (pre @ (r, v) # rest)
        \<and> is_nested_route R r v \<and> get_prop v m = Inr h \<and> truthy h
        \<and> rx (CHR ''^'' # accumulated R regexp [r] @ ''['' @ delimiter R @ '']?'') q
              = RxMatch q groups
        \<and> (\<forall>(r0, v0) \<in> set pre. is_nested_route R r0 v0 \<longrightarrow>
              rx (CHR ''^'' # exact_pattern R (regexp @ delimiter R @ r0)) q = RxNull)
      \<longrightarrow> traverse rx R m q (Obj (pre @ (r, v) # rest)) regexp =
            Inr (Some (terminal_match v h groups)))
   \<and> (\<not> strict R \<and> delimiter R = [c] \<and> p \<noteq> [c]
        \<and> ''hasOwnProperty'' \<notin> fst ` set (pre @ (r, v) # rest)
        \<and> segment_match (CHR ''^'' # accumulated R regexp [r]) p = Some (RxMatch p gs)
        \<and> segment_match (CHR ''^'' # accumulated R regexp [r] @ ''['' @ [c] @ '']?'') p
             = Some (rx (CHR ''^'' # accumulated R regexp [r] @ ''['' @ [c] @ '']?'') p)
        \<and> segment_match (CHR ''^'' # accumulated R regexp [r] @ ''['' @ [c] @ '']?'') (p @ [c])
             = Some (rx (CHR ''^'' # accumulated R regexp [r] @ ''['' @ [c] @ '']?'') (p @ [c]))
        \<and> is_nested_route R r v \<and> get_prop v m = Inr h \<and> truthy h
        \<and> (\<forall>(r0, v0) \<in> set pre. is_nested_route R r0 v0 \<longrightarrow>
              rx (CHR ''^'' # exact_pattern R (regexp @ delimiter R @ r0)) p = RxNull
              \<and> rx (CHR ''^'' # exact_pattern R (regexp @ delimiter R @ r0)) (p @ [c]) = RxNull)
      \<longrightarrow> traverse rx R m p (Obj (pre @ (r, v) # rest)) regexp
             = Inr (Some (terminal_match v h gs))
          \<and> (\<exists>gs'. traverse rx R m (p @ [c]) (Obj (pre @ (r, v) # rest)) regexp
                     = Inr (Some (terminal_match v h gs'))))"
proof (rule conjI)
  show "strict R \<and> p \<noteq> delimiter R \<and> traverse rx R m p node regexp = Inr (Some res) \<longrightarrow>
      (\<exists>keys e h. keys \<noteq> [] \<and> e \<in> set (chain_ends node keys)
         \<and> get_prop e m = Inr h \<and> truthy h
         \<and> rx (CHR ''^'' # accumulated R regexp keys) p = RxMatch p (captured res))"
    using traverse_strict_exact [of R p rx m node regexp res] by blast
next
  show "(\<not> strict R \<and> q \<noteq> [] \<and> q \<noteq> delimiter R
        \<and> ''hasOwnProperty'' \<notin> fst ` set (pre @ (r, v) # rest)
        \<and> is_nested_route R r v \<and> get_prop v m = Inr h \<and> truthy h
        \<and> rx (CHR ''^'' # accumulated R regexp [r] @ ''['' @ delimiter R @ '']?'') q
              = RxMatch q groups
        \<and> (\<forall>(r0, v0) \<in> set pre. is_nested_route R r0 v0 \<longrightarrow>
              rx (CHR ''^'' # exact_pattern R (regexp @ delimiter R @ r0)) q = RxNull)
      \<longrightarrow> traverse rx R m q (Obj (pre @ (r, v) # rest)) regexp =
            Inr (Some (terminal_match v h groups)))
   \<and> (\<not> strict R \<and> delimiter R = [c] \<and> p \<noteq> [c]
        \<and> ''hasOwnProperty'' \<notin> fst ` set (pre @ (r, v) # rest)
        \<and> segment_match (CHR ''^'' # accumulated R regexp [r]) p = Some (RxMatch p gs)
        \<and> segment_match (CHR ''^'' # accumulated R regexp [r] @ ''['' @ [c] @ '']?'') p
             = Some (rx (CHR ''^'' # accumulated R regexp [r] @ ''['' @ [c] @ '']?'') p)
        \<and> segment_match (CHR ''^'' # accumulated R regexp [r] @ ''['' @ [c] @ '']?'') (p @ [c])
             = Some (rx (CHR ''^'' # accumulated R regexp [r] @ ''['' @ [c] @ '']?'') (p @ [c]))
        \<and> is_nested_route R r v \<and> get_prop v m = Inr h \<and> truthy h
        \<and> (\<forall>(r0, v0) \<in> set pre. is_nested_route R r0 v0 \<longrightarrow>
              rx (CHR ''^'' # exact_pattern R (regexp @ delimiter R @ r0)) p = RxNull
              \<and> rx (CHR ''^'' # exact_pattern R (regexp @ delimiter R @ r0)) (p @ [c]) = RxNull)
      \<longrightarrow> traverse rx R m p (Obj (pre @ (r, v) # rest)) regexp
             = Inr (Some (terminal_match v h gs))
          \<and> (\<exists>gs'. traverse rx R m (p @ [c]) (Obj (pre @ (r, v) # rest)) regexp
                     = Inr (Some (terminal_match v h gs'))))"
  proof (rule conjI)
    show "\<not> strict R \<and> q \<noteq> [] \<and> q \<noteq> delimiter R
        \<and> ''hasOwnProperty'' \<notin> fst ` set (pre @ (r, v) # rest)
        \<and> is_nested_route R r v \<and> get_prop v m = Inr h \<and> truthy h
        \<and> rx (CHR ''^'' # accumulated R regexp [r] @ ''['' @ delimiter R @ '']?'') q
              = RxMatch q groups
        \<and> (\<forall>(r0, v0) \<in> set pre. is_nested_route R r0 v0 \<longrightarrow>
              rx (CHR ''^'' # exact_pattern R (regexp @ delimiter R @ r0)) q = RxNull)
      \<longrightarrow> traverse rx R m q (Obj (pre @ (r, v) # rest)) regexp =
            Inr (Some (terminal_match v h groups))"
    proof (rule impI)
      assume a: "\<not> strict R \<and> q \<noteq> [] \<and> q \<noteq> delimiter R
        \<and> ''hasOwnProperty'' \<notin> fst ` set (pre @ (r, v) # rest)
        \<and> is_nested_route R r v \<and> get_prop v m = Inr h \<and> truthy h
        \<and> rx (CHR ''^'' # accumulated R regexp [r] @ ''['' @ delimiter R @ '']?'') q
              = RxMatch q groups
        \<and> (\<forall>(r0, v0) \<in> set pre. is_nested_route R r0 v0 \<longrightarrow>
              rx (CHR ''^'' # exact_pattern R (regexp @ delimiter R @ r0)) q = RxNull)"
      show "traverse rx R m q (Obj (pre @ (r, v) # rest)) regexp =
            Inr (Some (terminal_match v h groups))"
        by (rule traverse_nonstrict_extended
          [where R = R and q = q and r = r and v = v and m = m and h = h and rx = rx
             and regexp = regexp and groups = groups and pre = pre and rest = rest])
           (use a in \<open>simp_all add: accumulated_single\<close>)
    qed
  next
    show "\<not> strict R \<and> delimiter R = [c] \<and> p \<noteq> [c]
        \<and> ''hasOwnProperty'' \<notin> fst ` set (pre @ (r, v) # rest)
        \<and> segment_match (CHR ''^'' # accumulated R regexp [r]) p = Some (RxMatch p gs)
        \<and> segment_match (CHR ''^'' # accumulated R regexp [r] @ ''['' @ [c] @ '']?'') p
             = Some (rx (CHR ''^'' # accumulated R regexp [r] @ ''['' @ [c] @ '']?'') p)
        \<and> segment_match (CHR ''^'' # accumulated R regexp [r] @ ''['' @ [c] @ '']?'') (p @ [c])
             = Some (rx (CHR ''^'' # accumulated R regexp [r] @ ''['' @ [c] @ '']?'') (p @ [c]))
        \<and> is_nested_route R r v \<and> get_prop v m = Inr h \<and> truthy h
        \<and> (\<forall>(r0, v0) \<in> set pre. is_nested_route R r0 v0 \<longrightarrow>
              rx (CHR ''^'' # exact_pattern R (regexp @ delimiter R @ r0)) p = RxNull
              \<and> rx (CHR ''^'' # exact_pattern R (regexp @ delimiter R @ r0)) (p @ [c]) = RxNull)
      \<longrightarrow> traverse rx R m p (Obj (pre @ (r, v) # rest)) regexp
             = Inr (Some (terminal_match v h gs))
          \<and> (\<exists>gs'. traverse rx R m (p @ [c]) (Obj (pre @ (r, v) # rest)) regexp
                     = Inr (Some (terminal_match v h gs')))"
    proof (rule impI)
      assume a: "\<not> strict R \<and> delimiter R = [c] \<and> p \<noteq> [c]
        \<and> ''hasOwnProperty'' \<notin> fst ` set (pre @ (r, v) # rest)
        \<and> segment_match (CHR ''^'' # accumulated R regexp [r]) p = Some (RxMatch p gs)
        \<and> segment_match (CHR ''^'' # accumulated R regexp [r] @ ''['' @ [c] @ '']?'') p
             = Some (rx (CHR ''^'' # accumulated R regexp [r] @ ''['' @ [c] @ '']?'') p)
        \<and> segment_match (CHR ''^'' # accumulated R regexp [r] @ ''['' @ [c] @ '']?'') (p @ [c])
             = Some (rx (CHR ''^'' # accumulated R regexp [r] @ ''['' @ [c] @ '']?'') (p @ [c]))
        \<and> is_nested_route R r v \<and> get_prop v m = Inr h \<and> truthy h
        \<and> (\<forall>(r0, v0) \<in> set pre. is_nested_route R r0 v0 \<longrightarrow>
              rx (CHR ''^'' # exact_pattern R (regexp @ delimiter R @ r0)) p = RxNull
              \<and> rx (CHR ''^'' # exact_pattern R (regexp @ delimiter R @ r0)) (p @ [c]) = RxNull)"
      from a have a1: "\<not> strict R" and a2: "delimiter R = [c]" and a3: "p \<noteq> [c]"
        and a0: "''hasOwnProperty'' \<notin> fst ` set (pre @ (r, v) # rest)"
        and a4: "segment_match (CHR ''^'' # accumulated R regexp [r]) p = Some (RxMatch p gs)"
        and a5: "segment_match (CHR ''^'' # accumulated R regexp [r] @ ''['' @ [c] @ '']?'') p
             = Some (rx (CHR ''^'' # accumulated R regexp [r] @ ''['' @ [c] @ '']?'') p)"
        and a6: "segment_match (CHR ''^'' # accumulated R regexp [r] @ ''['' @ [c] @ '']?'') (p @ [c])
             = Some (rx (CHR ''^'' # accumulated R regexp [r] @ ''['' @ [c] @ '']?'') (p @ [c]))"
        and a7: "is_nested_route R r v" and a8: "get_prop v m = Inr h" and a9: "truthy h"
        and a10: "\<forall>(r0, v0) \<in> set pre. is_nested_route R r0 v0 \<longrightarrow>
              rx (CHR ''^'' # exact_pattern R (regexp @ delimiter R @ r0)) p = RxNull
              \<and> rx (CHR ''^'' # exact_pattern R (regexp @ delimiter R @ r0)) (p @ [c]) = RxNull"
        by blast+
      have 1: "traverse rx R m p (Obj (pre @ (r, v) # rest)) regexp
             = Inr (Some (terminal_match v h gs))"
        by (rule traverse_nonstrict_trailing(1)
          [where R = R and c = c and p = p and regexp = regexp and r = r and gs = gs
             and rx = rx and v = v and m = m and h = h and pre = pre and rest = rest])
           (fact a0 a1 a2 a3 a4 a5 a6 a7 a8 a9 a10)+
      have 2: "\<exists>gs'. traverse rx R m (p @ [c]) (Obj (pre @ (r, v) # rest)) regexp
                     = Inr (Some (terminal_match v h gs'))"
        by (rule traverse_nonstrict_trailing(2)
          [where R = R and c = c and p = p and regexp = regexp and r = r and gs = gs
             and rx = rx and v = v and m = m and h = h and pre = pre and rest = rest])
           (fact a0 a1 a2 a3 a4 a5 a6 a7 a8 a9 a10)+
      from 1 2 show "traverse rx R m p (Obj (pre @ (r, v) # rest)) regexp
             = Inr (Some (terminal_match v h gs))
          \<and> (\<exists>gs'. traverse rx R m (p @ [c]) (Obj (pre @ (r, v) # rest)) regexp
                     = Inr (Some (terminal_match v h gs')))"
        by (rule conjI)
    qed
  qed
qed

theorem strict_exact_nonstrict_trailing_witness:
  "(\<exists>keys e h. keys \<noteq> []
       \<and> e \<in> set (chain_ends
                    (Obj [(''posts'', Obj [(''on'', Fn 3)]),
                          (''users'', Obj [(''([a-zA-Z0-9-]+)'', Obj [(''on'', Fn 2)])])]) keys)
       \<and> get_prop e ''on'' = Inr h \<and> truthy h
       \<and> segment_engine (CHR ''^'' # accumulated new_router [] keys) ''/users/42''
           = RxMatch ''/users/42'' [Str ''42''])
   \<and> traverse segment_engine (new_router\<lparr>strict := False\<rparr>) ''on'' ''/users/42/''
        (Obj ([(''new'', Obj [(''on'', Fn 3)])]
              @ (''([a-zA-Z0-9-]+)'', Obj [(''on'', Fn 2)]) # [])) ''/users''
      = Inr (Some \<lparr>layers = [Arr [Fn 2]], after = [], captured = [Str ''42'']\<rparr>)
   \<and> traverse segment_engine (new_router\<lparr>strict := False\<rparr>) ''on'' ''/users/42''
        (Obj ([(''new'', Obj [(''on'', Fn 3)])]
              @ (''([a-zA-Z0-9-]+)'', Obj [(''on'', Fn 2)]) # [])) ''/users''
      = Inr (Some \<lparr>layers = [Arr [Fn 2]], after = [], captured = [Str ''42'']\<rparr>)
   \<and> (\<exists>gs'. traverse segment_engine (new_router\<lparr>strict := False\<rparr>) ''on'' (''/users/42'' @ ''/'')
        (Obj ([(''new'', Obj [(''on'', Fn 3)])]
              @ (''([a-zA-Z0-9-]+)'', Obj [(''on'', Fn 2)]) # [])) ''/users''
      = Inr (Some (terminal_match (Obj [(''on'', Fn 2)]) (Fn 2) gs')))"
proof -
  let ?T = "Obj [(''posts'', Obj [(''on'', Fn 3)]),
                 (''users'', Obj [(''([a-zA-Z0-9-]+)'', Obj [(''on'', Fn 2)])])]"
  let ?res = "\<lparr>layers = [Arr [Fn 2]], after = [], captured = [Str ''42'']\<rparr>"
  let ?N = "new_router\<lparr>strict := False\<rparr>"
  let ?r = "''([a-zA-Z0-9-]+)''"
  let ?v = "Obj [(''on'', Fn 2)]"
  let ?pre = "[(''new'', Obj [(''on'', Fn 3)])]"
  have s: "strict new_router \<and> ''/users/42'' \<noteq> delimiter new_router
           \<and> traverse segment_engine new_router ''on'' ''/users/42'' ?T [] = Inr (Some ?res)"
    by code_simp
  have e: "\<not> strict ?N \<and> ''/users/42/'' \<noteq> [] \<and> ''/users/42/'' \<noteq> delimiter ?N
        \<and> ''hasOwnProperty'' \<notin> fst ` set (?pre @ (?r, ?v) # [])
        \<and> is_nested_route ?N ?r ?v \<and> get_prop ?v ''on'' = Inr (Fn 2) \<and> truthy (Fn 2)
        \<and> segment_engine
              (CHR ''^'' # accumulated ?N ''/users'' [?r] @ ''['' @ delimiter ?N @ '']?'')
              ''/users/42/''
            = RxMatch ''/users/42/'' [Str ''42'']
        \<and> (\<forall>(r0, v0) \<in> set ?pre. is_nested_route ?N r0 v0 \<longrightarrow>
              segment_engine (CHR ''^'' # exact_pattern ?N (''/users'' @ delimiter ?N @ r0))
                ''/users/42/'' = RxNull)"
    by code_simp
  have n: "\<not> strict ?N \<and> delimiter ?N = [CHR ''/''] \<and> ''/users/42'' \<noteq> [CHR ''/'']
        \<and> ''hasOwnProperty'' \<notin> fst ` set (?pre @ (?r, ?v) # [])
        \<and> segment_match (CHR ''^'' # accumulated ?N ''/users'' [?r]) ''/users/42''
            = Some (RxMatch ''/users/42'' [Str ''42''])
        \<and> segment_match (CHR ''^'' # accumulated ?N ''/users'' [?r] @ ''['' @ [CHR ''/''] @ '']?'')
              ''/users/42''
            = Some (segment_engine
                      (CHR ''^'' # accumulated ?N ''/users'' [?r] @ ''['' @ [CHR ''/''] @ '']?'')
                      ''/users/42'')
        \<and> segment_match (CHR ''^'' # accumulated ?N ''/users'' [?r] @ ''['' @ [CHR ''/''] @ '']?'')
              (''/users/42'' @ [CHR ''/''])
            = Some (segment_engine
                      (CHR ''^'' # accumulated ?N ''/users'' [?r] @ ''['' @ [CHR ''/''] @ '']?'')
                      (''/users/42'' @ [CHR ''/'']))
        \<and> is_nested_route ?N ?r ?v \<and> get_prop ?v ''on'' = Inr (Fn 2) \<and> truthy (Fn 2)
        \<and> (\<forall>(r0, v0) \<in> set ?pre. is_nested_route ?N r0 v0 \<longrightarrow>
              segment_engine (CHR ''^'' # exact_pattern ?N (''/users'' @ delimiter ?N @ r0))
                ''/users/42'' = RxNull
              \<and> segment_engine (CHR ''^'' # exact_pattern ?N (''/users'' @ delimiter ?N @ r0))
                (''/users/42'' @ [CHR ''/'']) = RxNull)"
    by code_simp
  have t: "terminal_match ?v (Fn 2) [Str ''42''] = ?res"
    by (simp add: terminal_match_def get_key_def inherited_def object_prototype_members_def)
  have a: "\<exists>keys e h. keys \<noteq> [] \<and> e \<in> set (chain_ends ?T keys)
       \<and> get_prop e ''on'' = Inr h \<and> truthy h
       \<and> segment_engine (CHR ''^'' # accumulated new_router [] keys) ''/users/42''
           = RxMatch ''/users/42'' [Str ''42'']"
    using strict_exact_nonstrict_trailing
      [of new_router "''/users/42''" segment_engine "''on''" ?T "[]" ?res,
       THEN conjunct1, THEN mp, OF s]
    by simp
  have b: "traverse segment_engine ?N ''on'' ''/users/42/'' (Obj (?pre @ (?r, ?v) # [])) ''/users''
      = Inr (Some (terminal_match ?v (Fn 2) [Str ''42'']))"
    by (rule strict_exact_nonstrict_trailing
          [where rx = segment_engine, THEN conjunct2, THEN conjunct1, THEN mp, OF e])
  have c: "traverse segment_engine ?N ''on'' ''/users/42'' (Obj (?pre @ (?r, ?v) # [])) ''/users''
             = Inr (Some (terminal_match ?v (Fn 2) [Str ''42'']))
          \<and> (\<exists>gs'. traverse segment_engine ?N ''on'' (''/users/42'' @ [CHR ''/''])
                     (Obj (?pre @ (?r, ?v) # [])) ''/users''
                     = Inr (Some (terminal_match ?v (Fn 2) gs')))"
    by (rule strict_exact_nonstrict_trailing
          [where rx = segment_engine, THEN conjunct2, THEN conjunct2, THEN mp, OF n])
  from a b [unfolded t] c [unfolded t] show ?thesis by blast
qed

theorem nonstrict_alternation_counterexample:
  "traverse alternation_match (new_router\<lparr>strict := False\<rparr>) ''on'' ''/a''
       (Obj [(''a|b'', Obj [(''on'', Fn 2)])]) []
     = Inr (Some \<lparr>layers = [Arr [Fn 2]], after = [], captured = []\<rparr>)
   \<and> traverse alternation_match (new_router\<lparr>strict := False\<rparr>) ''on'' ''/a/''
       (Obj [(''a|b'', Obj [(''on'', Fn 2)])]) []
     = Inr None
   \<and> traverse (\<lambda>src s. RxNull) new_router ''on'' ''/'' (Obj [(''on'', Fn 2)]) []
     = Inr (Some \<lparr>layers = [Arr [Fn 2]], after = [], captured = []\<rparr>)"
  by (simp add: new_router_def is_nested_route_def is_method_name_def exact_pattern_def
        alternation_match_def terminal_match_def get_key_def inherited_def
        object_prototype_members_def own_key_test_def)

section \<open>Properties of insertion\<close>

lemma map_of_replace_key:
  "k \<in> fst ` set kvs \<Longrightarrow>
     map_of (replace_key kvs k v) k' = (if k' = k then Some v else map_of kvs k')"
  by (induction kvs) (force split: if_splits)+

lemma map_of_add_index_key:
  "map_of (add_index_key kvs k v) k' = (if k' = k then Some v else map_of kvs k')"
  by (induction kvs) auto

lemma map_of_append_key:
  "k \<notin> fst ` set kvs \<Longrightarrow>
     map_of (kvs @ [(k, v)]) k' = (if k' = k then Some v else map_of kvs k')"
  by (induction kvs) (auto simp del: map_of_append)

lemma map_of_set_key:
  "map_of (set_key kvs k v) k' = (if k' = k then Some v else map_of kvs k')"
  by (simp add: set_key_def map_of_replace_key map_of_add_index_key map_of_append_key
        del: map_of_append)


lemma get_key_set_key_other: "k' \<noteq> k \<Longrightarrow> get_key (set_key kvs k v) k' = get_key kvs k'"
  by (simp add: get_key_def map_of_set_key)

lemma get_key_Obj_own:
  assumes "get_key kvs k = Obj c"
  shows "k \<noteq> ''__proto__''"
  using assms by (auto simp: get_key_def)


lemma set_key_empty [simp]: "set_key [] k v = [(k, v)]"
  by (simp add: set_key_def)


lemma insert_route_one_key:
  assumes "path_keys ps path = [k]" "k \<noteq> []"
  shows "insert_route ps r m path route parent = insert_final m k route parent"
proof -
  from assms obtain p where f: "filter (\<lambda>p. p \<noteq> []) path = [p]" and k: "compile_part ps p = k"
    by (auto simp: path_keys_def)
  show ?thesis
    using assms(2) by (subst insert_route.simps) (simp add: f k part_key_def)
qed

lemma insert_route_more_keys:
  assumes "path_keys ps path = k # ks" "ks \<noteq> []"
  shows "insert_route ps r m path route parent =
     (case get_prop parent k of
        Inl e \<Rightarrow> (Some e, parent)
      | Inr c \<Rightarrow>
          (case put_prop parent k (if truthy c then c else Obj []) of
             Inl e \<Rightarrow> (Some e, parent)
           | Inr parent1 \<Rightarrow>
               (case insert_route ps False m (tl (filter (\<lambda>p. p \<noteq> []) path)) route
                       (if truthy c then c else Obj []) of
                  (err, child') \<Rightarrow>
                    (case put_prop parent1 k child' of
                       Inl e \<Rightarrow> (Some e, parent1)
                     | Inr parent2 \<Rightarrow> (err, parent2)))))"
    and "path_keys ps (tl (filter (\<lambda>p. p \<noteq> []) path)) = ks"
proof -
  from assms obtain p rest where f: "filter (\<lambda>p. p \<noteq> []) path = p # rest"
    and k: "compile_part ps p = k" and r: "map (compile_part ps) rest = ks"
    by (auto simp: path_keys_def)
  from r assms(2) have rest: "rest \<noteq> []" by auto
  show "insert_route ps r m path route parent =
     (case get_prop parent k of
        Inl e \<Rightarrow> (Some e, parent)
      | Inr c \<Rightarrow>
          (case put_prop parent k (if truthy c then c else Obj []) of
             Inl e \<Rightarrow> (Some e, parent)
           | Inr parent1 \<Rightarrow>
               (case insert_route ps False m (tl (filter (\<lambda>p. p \<noteq> []) path)) route
                       (if truthy c then c else Obj []) of
                  (err, child') \<Rightarrow>
                    (case put_prop parent1 k child' of
                       Inl e \<Rightarrow> (Some e, parent1)
                     | Inr parent2 \<Rightarrow> (err, parent2)))))"
    using rest by (subst insert_route.simps) (simp add: f k cong: sum.case_cong)
  have "set rest \<subseteq> set (filter (\<lambda>p. p \<noteq> []) path)"
    by (simp add: f subset_insertI)
  then have "\<forall>x \<in> set rest. x \<noteq> []"
    by auto
  then have "filter (\<lambda>p. p \<noteq> []) rest = rest"
    by (simp add: filter_id_conv)
  then show "path_keys ps (tl (filter (\<lambda>p. p \<noteq> []) path)) = ks"
    by (simp add: path_keys_def f r)
qed

lemma insert_route_step_object:
  assumes "path_keys ps path = k # ks" "ks \<noteq> []" "k \<noteq> ''__proto__''"
    and "child = (if truthy (get_key kvs k) then get_key kvs k else Obj [])"
  shows "insert_route ps r m path route (Obj kvs) =
           (fst (insert_route ps False m (tl (filter (\<lambda>p. p \<noteq> []) path)) route child),
            Obj (set_key (set_key kvs k child) k
                   (snd (insert_route ps False m (tl (filter (\<lambda>p. p \<noteq> []) path)) route child))))"
  using assms(3,4)
  by (simp add: insert_route_more_keys(1) [OF assms(1,2)] split: prod.splits)


lemma node_at_Undefined [simp]: "node_at Undefined ks = Undefined"
  by (induction ks) auto

lemma node_at_non_object:
  assumes "\<And>kvs. v \<noteq> Obj kvs" "ks \<noteq> []"
  shows "node_at v ks = Undefined"
  using assms by (cases ks; cases v) auto

lemma node_at_object_child:
  assumes "node_at (get_key table k) ks = Obj nkvs"
  shows "\<exists>ckvs. get_key table k = Obj ckvs"
proof (cases "ks = []")
  case True
  with assms show ?thesis by simp
next
  case False
  then show ?thesis
    using assms node_at_non_object [of "get_key table k" ks]
    by (cases "get_key table k") auto
qed










lemma insert_final_invalid:
  assumes "get_key kvs k \<noteq> Undefined" "\<forall>c. get_key kvs k \<noteq> Obj c"
    and "get_key kvs k \<noteq> ObjectPrototype"
  shows "insert_final m k route (Obj kvs) =
           (Some (InvalidRouteContext (typeof (get_key kvs k))), Obj kvs)"
  using assms by (cases "get_key kvs k") (simp_all add: insert_final_def)

text \<open>
  When the last segment of a path is held, in a parent that is a plain object, by a
  value that is neither \<open>undefined\<close> nor a plain object, \<open>insert\<close> raises
  \<open>Invalid route context\<close>.
\<close>

lemma insert_route_last_segment_invalid:
  assumes "path_keys ps path = ks @ [k]" "[] \<notin> set (ks @ [k])"
    and "node_at (Obj table) ks = Obj pkvs"
    and "get_key pkvs k \<noteq> Undefined" "\<forall>c. get_key pkvs k \<noteq> Obj c"
    and "get_key pkvs k \<noteq> ObjectPrototype"
  shows "fst (insert_route ps r m path route (Obj table)) =
           Some (InvalidRouteContext (typeof (get_key pkvs k)))"
  using assms(1-3)
proof (induction ks arbitrary: path table r)
  case Nil
  then have pk: "path_keys ps path = [k]" and k: "k \<noteq> []" and t: "pkvs = table"
    by auto
  show ?case
    using assms(4-6) unfolding insert_route_one_key [OF pk k] t
    by (simp add: insert_final_invalid)
next
  case (Cons k0 ks)
  from Cons.prems have pk: "path_keys ps path = k0 # (ks @ [k])" by simp
  have ne: "ks @ [k] \<noteq> []" by simp
  have "node_at (get_key table k0) ks = Obj pkvs"
    using Cons.prems(3) by simp
  then obtain ckvs where child: "get_key table k0 = Obj ckvs"
    using node_at_object_child by blast
  have kp: "k0 \<noteq> ''__proto__''"
    using get_key_Obj_own [OF child] .
  let ?rest = "tl (filter (\<lambda>p. p \<noteq> []) path)"
  have rest: "path_keys ps ?rest = ks @ [k]"
    by (rule insert_route_more_keys(2) [OF pk ne])
  have ih: "fst (insert_route ps False m ?rest route (Obj ckvs)) =
          Some (InvalidRouteContext (typeof (get_key pkvs k)))"
    using Cons.IH [OF rest, of ckvs False] Cons.prems child by simp
  have unfold: "insert_route ps r m path route (Obj table) =
        (fst (insert_route ps False m ?rest route (Obj ckvs)),
         Obj (set_key (set_key table k0 (Obj ckvs)) k0
                (snd (insert_route ps False m ?rest route (Obj ckvs)))))"
    by (rule insert_route_step_object [OF pk ne kp]) (simp add: child)
  show ?case
    using ih by (simp add: unfold)
qed

text \<open>
  Claim C5 (an insertion whose path meets a segment held by a value that is neither
  absent nor a plain object, such as a bare callable on a segment that would need to
  hold children, raises \<open>Invalid route context\<close>). The type of the segment is checked
  only for the last segment of the path. With the handler \<open>g\<close> in the root slot
  \<open>on\<close>, inserting along the path \<open>on/x\<close> recurses into \<open>g\<close> and returns normally,
  having set the property \<open>x\<close> on the function \<open>g\<close>; no error is raised, and the
  route is lost: whatever the regular-expression engine, traversal skips the key \<open>on\<close>,
  which names a method and does not hold a plain object, and finds nothing for the
  path.
\<close>

theorem insert_through_callable_succeeds:
  "insert_route [] True ''get'' [''on'', ''x''] (Fn 3) (Obj [(''on'', Fn 7)])
     = (None, Obj [(''on'', FnWith 7 [(''x'', Obj [(''get'', Fn 3)])])])
   \<and> traverse rx new_router ''get'' ''/on/x''
         (Obj [(''on'', FnWith 7 [(''x'', Obj [(''get'', Fn 3)])])]) [] = Inr None"
proof (rule conjI)
  show "insert_route [] True ''get'' [''on'', ''x''] (Fn 3) (Obj [(''on'', Fn 7)])
     = (None, Obj [(''on'', FnWith 7 [(''x'', Obj [(''get'', Fn 3)])])])"
    by code_simp
next
  show "traverse rx new_router ''get'' ''/on/x''
         (Obj [(''on'', FnWith 7 [(''x'', Obj [(''get'', Fn 3)])])]) [] = Inr None"
    by (simp add: new_router_def own_key_test_def is_nested_route_def is_method_name_def)
qed

section \<open>Properties of scoped declaration\<close>

lemma on_one_scope: "scope (snd (on_one rt R m p route)) = scope R"
  by (auto simp: on_one_def split: option.splits prod.splits)

lemma on_each_scope: "scope (snd (on_each rt R ms p route)) = scope R"
proof (induction ms arbitrary: R)
  case Nil
  then show ?case by simp
next
  case (Cons m ms)
  show ?case
  proof (cases "on_one rt R m p route")
    case (Pair err R')
    then have "scope R' = scope R"
      using on_one_scope [of rt R m p route] by simp
    with Pair Cons.IH [of R'] show ?thesis
      by (cases err) auto
  qed
qed

lemma router_on_scope: "scope (snd (router_on rt R m p route)) = scope R"
  by (cases m) (simp_all add: router_on_def on_one_scope on_each_scope)

lemma router_param_scope: "scope (snd (router_param rt R token matcher)) = scope R"
  by (simp add: router_param_def Let_def split: option.splits)

lemma splice_out_appended: "splice_out (xs @ ys) (length xs) (length ys) = xs"
  by (simp add: splice_out_def)

lemma router_path_scope:
  assumes "fst (router_path rt R p routesFn) = None"
    and "\<And>R1. fst (routesFn R1) = None \<Longrightarrow> scope (snd (routesFn R1)) = scope R1"
  shows "scope (snd (router_path rt R p routesFn)) = scope R"
proof (cases "rx_split rt (delimiter R) (path_source p)")
  case None
  with assms(1) show ?thesis by (simp add: router_path_def)
next
  case (Some parts)
  let ?R1 = "R\<lparr>scope := scope R @ parts\<rparr>"
  obtain err R' where r: "routesFn ?R1 = (err, R')"
    by (cases "routesFn ?R1")
  with assms(1) Some have err: "err = None"
    by (cases err) (simp_all add: router_path_def)
  with r assms(2) [of ?R1] have "scope R' = scope R @ parts"
    by simp
  with r err Some show ?thesis
    by (simp add: router_path_def splice_out_appended)
qed

lemma exec_decl_Path:
  "exec_decl rt (Path p body) R = router_path rt R p (exec_decls rt body)"
  by (simp add: router_path_def)

lemma exec_scope:
  "fst (exec_decl rt d R) = None \<Longrightarrow> scope (snd (exec_decl rt d R)) = scope R"
  "fst (exec_decls rt ds R) = None \<Longrightarrow> scope (snd (exec_decls rt ds R)) = scope R"
proof (induction rt d R and rt ds R rule: exec_decl_exec_decls.induct)
  case (1 rt m p route R)
  then show ?case by (simp add: router_on_scope)
next
  case (2 rt p f R)
  then show ?case by (simp add: router_on_scope)
next
  case (3 rt token matcher R)
  then show ?case by (simp add: router_param_scope)
next
  case (4 rt p body R)
  show ?case
  proof (cases "rx_split rt (delimiter R) (path_source p)")
    case None
    with "4.prems" show ?thesis by simp
  next
    case (Some parts)
    let ?R1 = "R\<lparr>scope := scope R @ parts\<rparr>"
    obtain err R' where r: "exec_decls rt body ?R1 = (err, R')"
      by (cases "exec_decls rt body ?R1")
    with "4.prems" Some have err: "err = None"
      by (cases err) simp_all
    with r "4.IH" [OF Some] have "scope R' = scope R @ parts"
      by simp
    with r err Some show ?thesis
      by (simp add: splice_out_appended)
  qed
next
  case (5 rt R)
  then show ?case by simp
next
  case (6 rt d ds R)
  obtain err R' where r: "exec_decl rt d R = (err, R')"
    by (cases "exec_decl rt d R")
  with "6.prems" have err: "err = None"
    by (cases err) simp_all
  with r "6.IH"(1) have s1: "scope R' = scope R"
    by simp
  from r err "6.prems" have "fst (exec_decls rt ds R') = None"
    by simp
  with "6.IH"(2) [OF r [symmetric, unfolded err]] r err have "scope (snd (exec_decls rt ds R')) = scope R'"
    by simp
  with r err s1 show ?case
    by simp
qed

lemma router_path_result:
  assumes "fst (router_path rt R p routesFn) = None"
  shows "\<exists>parts. rx_split rt (delimiter R) (path_source p) = Some parts
           \<and> fst (routesFn (R\<lparr>scope := scope R @ parts\<rparr>)) = None
           \<and> (scope (snd (routesFn (R\<lparr>scope := scope R @ parts\<rparr>))) = scope R @ parts \<longrightarrow>
                snd (router_path rt R p routesFn)
                  = (snd (routesFn (R\<lparr>scope := scope R @ parts\<rparr>)))\<lparr>scope := scope R\<rparr>)"
proof (cases "rx_split rt (delimiter R) (path_source p)")
  case None
  with assms show ?thesis by (simp add: router_path_def)
next
  case (Some parts)
  let ?R1 = "R\<lparr>scope := scope R @ parts\<rparr>"
  obtain err R' where r: "routesFn ?R1 = (err, R')"
    by (cases "routesFn ?R1")
  with assms Some have err: "err = None"
    by (cases err) (simp_all add: router_path_def)
  have "scope R' = scope R @ parts \<longrightarrow>
          snd (router_path rt R p routesFn) = R'\<lparr>scope := scope R\<rparr>"
    using r err Some by (simp add: router_path_def splice_out_appended)
  with Some r err show ?thesis by simp
qed

text \<open>
  Claim C10, as amended. For every call \<open>path(scopePath, routesFn)\<close> that returns,
  \<open>routesFn\<close> has been run, and has returned, on the router whose scope is the scope
  before the call followed by the segments of \<open>scopePath\<close>; and if \<open>routesFn\<close> left
  that scope as it found it, the router after the call is the one \<open>routesFn\<close> left
  with the scope before the call put back. Every \<open>routesFn\<close> that is a sequence of
  \<open>on\<close>, \<open>param\<close> and nested \<open>path\<close> calls and returns leaves the scope as it found it,
  so that after such a call the scope equals its value before the call. A
  \<open>routesFn\<close> that returns with a changed scope (one that catches the error of a
  nested \<open>path\<close> call, whose segments are then never removed) leaks: \<open>splice\<close> removes
  entries by position only.
\<close>

theorem path_restores_scope:
  "(fst (router_path rt R p routesFn) = None \<longrightarrow>
      (\<exists>parts. rx_split rt (delimiter R) (path_source p) = Some parts
         \<and> fst (routesFn (R\<lparr>scope := scope R @ parts\<rparr>)) = None
         \<and> (scope (snd (routesFn (R\<lparr>scope := scope R @ parts\<rparr>))) = scope R @ parts \<longrightarrow>
              snd (router_path rt R p routesFn)
                = (snd (routesFn (R\<lparr>scope := scope R @ parts\<rparr>)))\<lparr>scope := scope R\<rparr>)))
   \<and> (fst (router_path rt R p (exec_decls rt body)) = None \<longrightarrow>
      (\<exists>parts. rx_split rt (delimiter R) (path_source p) = Some parts
         \<and> snd (router_path rt R p (exec_decls rt body))
             = (snd (exec_decls rt body (R\<lparr>scope := scope R @ parts\<rparr>)))\<lparr>scope := scope R\<rparr>)
      \<and> scope (snd (router_path rt R p (exec_decls rt body))) = scope R)"
proof (rule conjI)
  show "fst (router_path rt R p routesFn) = None \<longrightarrow>
      (\<exists>parts. rx_split rt (delimiter R) (path_source p) = Some parts
         \<and> fst (routesFn (R\<lparr>scope := scope R @ parts\<rparr>)) = None
         \<and> (scope (snd (routesFn (R\<lparr>scope := scope R @ parts\<rparr>))) = scope R @ parts \<longrightarrow>
              snd (router_path rt R p routesFn)
                = (snd (routesFn (R\<lparr>scope := scope R @ parts\<rparr>)))\<lparr>scope := scope R\<rparr>))"
    using router_path_result by blast
next
  show "fst (router_path rt R p (exec_decls rt body)) = None \<longrightarrow>
      (\<exists>parts. rx_split rt (delimiter R) (path_source p) = Some parts
         \<and> snd (router_path rt R p (exec_decls rt body))
             = (snd (exec_decls rt body (R\<lparr>scope := scope R @ parts\<rparr>)))\<lparr>scope := scope R\<rparr>)
      \<and> scope (snd (router_path rt R p (exec_decls rt body))) = scope R"
  proof (rule impI)
    assume ok: "fst (router_path rt R p (exec_decls rt body)) = None"
    from router_path_result [OF ok] obtain parts where
      sp: "rx_split rt (delimiter R) (path_source p) = Some parts"
      and fn: "fst (exec_decls rt body (R\<lparr>scope := scope R @ parts\<rparr>)) = None"
      and im: "scope (snd (exec_decls rt body (R\<lparr>scope := scope R @ parts\<rparr>))) = scope R @ parts \<longrightarrow>
                snd (router_path rt R p (exec_decls rt body))
                  = (snd (exec_decls rt body (R\<lparr>scope := scope R @ parts\<rparr>)))\<lparr>scope := scope R\<rparr>"
      by blast
    have "scope (snd (exec_decls rt body (R\<lparr>scope := scope R @ parts\<rparr>))) = scope R @ parts"
      using exec_scope(2) [OF fn] by simp
    with im have eq: "snd (router_path rt R p (exec_decls rt body))
                  = (snd (exec_decls rt body (R\<lparr>scope := scope R @ parts\<rparr>)))\<lparr>scope := scope R\<rparr>"
      by simp
    then have "scope (snd (router_path rt R p (exec_decls rt body))) = scope R"
      by simp
    with sp eq show "(\<exists>parts. rx_split rt (delimiter R) (path_source p) = Some parts
         \<and> snd (router_path rt R p (exec_decls rt body))
             = (snd (exec_decls rt body (R\<lparr>scope := scope R @ parts\<rparr>)))\<lparr>scope := scope R\<rparr>)
      \<and> scope (snd (router_path rt R p (exec_decls rt body))) = scope R"
      by blast
  qed
qed

theorem path_restores_scope_witness:
  "fst (router_path literal_runtime (new_router\<lparr>scope := [''api'']\<rparr>) (PathString ''/users'')
          (exec_decls literal_runtime
             [On (Method ''get'') (PathString ''/:id'') (Fn 2),
              Path (PathString ''/posts'') [OnDefault (PathString ''/new'') 3]])) = None
   \<and> snd (router_path literal_runtime (new_router\<lparr>scope := [''api'']\<rparr>) (PathString ''/users'')
          (exec_decls literal_runtime
             [On (Method ''get'') (PathString ''/:id'') (Fn 2),
              Path (PathString ''/posts'') [OnDefault (PathString ''/new'') 3]]))
       = (snd (exec_decls literal_runtime
             [On (Method ''get'') (PathString ''/:id'') (Fn 2),
              Path (PathString ''/posts'') [OnDefault (PathString ''/new'') 3]]
             (new_router\<lparr>scope := [''api'', '''', ''users'']\<rparr>)))\<lparr>scope := [''api'']\<rparr>
   \<and> scope (snd (router_path literal_runtime (new_router\<lparr>scope := [''api'']\<rparr>)
          (PathString ''/users'')
          (exec_decls literal_runtime
             [On (Method ''get'') (PathString ''/:id'') (Fn 2),
              Path (PathString ''/posts'') [OnDefault (PathString ''/new'') 3]]))) = [''api'']"
proof -
  let ?body = "[On (Method ''get'') (PathString ''/:id'') (Fn 2),
              Path (PathString ''/posts'') [OnDefault (PathString ''/new'') 3]]"
  let ?R = "new_router\<lparr>scope := [''api'']\<rparr>"
  have h: "fst (router_path literal_runtime ?R (PathString ''/users'')
             (exec_decls literal_runtime ?body)) = None"
    by code_simp
  have sp: "rx_split literal_runtime (delimiter ?R) (path_source (PathString ''/users''))
              = Some ['''', ''users'']"
    by (simp add: literal_runtime_def new_router_def)
  note G = path_restores_scope [of literal_runtime ?R "PathString ''/users''"
             "exec_decls literal_runtime ?body" ?body, THEN conjunct1, THEN mp, OF h]
  note D = path_restores_scope [of literal_runtime ?R "PathString ''/users''"
             "exec_decls literal_runtime ?body" ?body, THEN conjunct2, THEN mp, OF h]
  from D sp have "snd (router_path literal_runtime ?R (PathString ''/users'')
          (exec_decls literal_runtime ?body))
       = (snd (exec_decls literal_runtime ?body (?R\<lparr>scope := scope ?R @ ['''', ''users'']\<rparr>)))
           \<lparr>scope := scope ?R\<rparr>"
    by auto
  then have e: "snd (router_path literal_runtime ?R (PathString ''/users'')
          (exec_decls literal_runtime ?body))
       = (snd (exec_decls literal_runtime ?body (new_router\<lparr>scope := [''api'', '''', ''users'']\<rparr>)))
           \<lparr>scope := [''api'']\<rparr>"
    by simp
  from G sp have "fst (exec_decls literal_runtime ?body (?R\<lparr>scope := scope ?R @ ['''', ''users'']\<rparr>))
                    = None"
    by auto
  from h e D show ?thesis
    by simp
qed

theorem path_scope_leak_counterexample:
  "fst (router_path literal_runtime new_router (PathString ''/a'')
          (catching_body literal_runtime)) = None
   \<and> scope new_router = []
   \<and> scope (snd (router_path literal_runtime new_router (PathString ''/a'')
          (catching_body literal_runtime))) = ['''', ''b'']"
  by (simp add: router_path_def catching_body_def throwing_body_def literal_runtime_def
        new_router_def splice_out_def)

end
